theory Spec2Isabelle
  imports Main "HOL-Library.Word"
begin

unbundle bit_operations_syntax

section \<open>The cached Gitiles log of milo/git/log.go\<close>

text \<open>
  The development embeds \<^verbatim>\<open>milo/git/log.go\<close>: the public function \<^verbatim>\<open>Log\<close>, the
  request object \<^verbatim>\<open>logReq\<close> and its methods \<^verbatim>\<open>call\<close>, \<^verbatim>\<open>readCache\<close>,
  \<^verbatim>\<open>writeCache\<close> and \<^verbatim>\<open>mkCache\<close>.

  The collaborators that live outside the file (the memcache service, the namespace
  service, the Gitiles client factory and the protobuf serializer) are fields of an
  environment record: the code only observes them through the results of its calls.
  Every call the code makes to a collaborator is appended to a trace of events, so that
  the order and number of the accesses can be stated.

  What the model leaves out: the \<^verbatim>\<open>context.Context\<close> argument and the logging calls,
  which have no effect on the results; the result of \<^verbatim>\<open>memcache.Set\<close>, which the code
  only logs; and writers to the cache other than the call itself, so that during one call
  the answer of \<^verbatim>\<open>memcache.Get\<close> depends on the key alone. The entries of
  \<^verbatim>\<open>res.Log\<close> are commits, never nil pointers.
\<close>

subsection \<open>Data\<close>

type_synonym byte = "8 word"

text \<open>\<^verbatim>\<open>gitpb.Commit\<close>: the identifier and the parents are raw digests (\<^verbatim>\<open>[]byte\<close>).\<close>

record Commit =
  Id :: "byte list"
  Tree :: "byte list"
  Parents :: "byte list list"
  Message :: string

text \<open>\<^verbatim>\<open>gitilespb.LogResponse\<close> and \<^verbatim>\<open>gitilespb.LogRequest\<close>.\<close>

record LogResponse =
  Log :: "Commit list"
  NextPageToken :: string

record LogRequest =
  Project :: string
  Treeish :: string
  PageSize :: int

text \<open>Go errors: an opaque error of a collaborator, or \<^verbatim>\<open>errors.Annotate(err, msg).Err()\<close>.\<close>

datatype error = Err string | Annotate error string

text \<open>
  \<^verbatim>\<open>memcache.Item\<close>: key, value and expiration (in seconds).
\<close>

record Item =
  Key :: string
  Value :: "byte list"
  Expiration :: nat

text \<open>
  What \<^verbatim>\<open>memcache.Get\<close> reports for one item: \<^verbatim>\<open>memcache.ErrCacheMiss\<close>,
  another error, or success (the item's value is then the stored value).
\<close>

datatype getResult = ErrCacheMiss | GetError string | Got "byte list"

text \<open>The calls to collaborators, in the order the code makes them.\<close>

datatype event =
    MemcacheGet "string list"
  | MemcacheSet "Item list"
  | GitilesClient string
  | GitilesLog LogRequest
  | CounterAdd string string string string

record env =
  info_Namespace :: "error option"
  memcache_Get :: "string \<Rightarrow> getResult"
  Client :: "string \<Rightarrow> error + (LogRequest \<Rightarrow> error + LogResponse)"
  proto_Marshal :: "LogResponse \<Rightarrow> error + byte list"
  proto_Unmarshal :: "byte list \<Rightarrow> error + LogResponse"

text \<open>
  \<^verbatim>\<open>logReq\<close> (lines 96-106). The Go field \<^verbatim>\<open>min\<close> is an \<^verbatim>\<open>int\<close>; HOL's \<open>min\<close> is
  taken, so the field is \<open>min'\<close>.
\<close>

record logReq =
  host :: string
  project :: string
  commitish :: string
  min' :: int
  commitishIsHash :: bool
  commitishEntry :: Item

text \<open>A Go call either panics or returns its results.\<close>

datatype 'a outcome = Panic string | Val 'a

text \<open>What \<^verbatim>\<open>Log\<close> and \<^verbatim>\<open>call\<close> give back: a panic, \<^verbatim>\<open>(nil, err)\<close> or \<^verbatim>\<open>(commits, nil)\<close>.\<close>

datatype result = Panicked string | Failed error | Returned "Commit list"

subsection \<open>Constants and library functions\<close>

text \<open>The values of the \<^verbatim>\<open>result\<close> field of the counter (lines 65-70).\<close>

definition cacheHit :: string where "cacheHit = ''hit''"
definition cacheMiss :: string where "cacheMiss = ''miss''"
definition cacheFailure :: string where "cacheFailure = ''failure-cache''"
definition decodingFailure :: string where "decodingFailure = ''failure-decoding''"

text \<open>\<^verbatim>\<open>gitHash = regexp.MustCompile("^[0-9a-fA-F]{40}$")\<close>: exactly forty hexadecimal digits.\<close>

definition isHexDigit :: "char \<Rightarrow> bool" where
  "isHexDigit ch = (ch \<in> set ''0123456789abcdefABCDEF'')"

definition gitHash_MatchString :: "string \<Rightarrow> bool" where
  "gitHash_MatchString s = (length s = 40 \<and> list_all isHexDigit s)"

text \<open>\<^verbatim>\<open>hex.EncodeToString\<close>: two lower-case digits per byte, high nibble first.\<close>

definition hextable :: string where
  "hextable = ''0123456789abcdef''"

definition hex_byte :: "byte \<Rightarrow> string" where
  "hex_byte b = [hextable ! unat (drop_bit 4 b), hextable ! unat (b AND 15)]"

definition hex_EncodeToString :: "byte list \<Rightarrow> string" where
  "hex_EncodeToString bs = concat (map hex_byte bs)"

subsection \<open>mkCache\<close>

text \<open>
  Lines 285-291: the key is \<^verbatim>\<open>fmt.Sprintf("%s|%s|%s", l.host, l.project, commitish)\<close>,
  the expiration 12 hours.
\<close>

definition cacheKey :: "string \<Rightarrow> string \<Rightarrow> string \<Rightarrow> string" where
  "cacheKey h p c = h @ ''|'' @ p @ ''|'' @ c"

definition mkCache :: "logReq \<Rightarrow> string \<Rightarrow> Item" where
  "mkCache l c = \<lparr>Key = cacheKey (host l) (project l) c, Value = [], Expiration = 12 * 3600\<rparr>"

subsection \<open>readCache\<close>

type_synonym readResult = "string \<times> Commit list \<times> bool"

text \<open>
  One iteration of the \<^verbatim>\<open>for\<close> loop of \<^verbatim>\<open>readCache\<close> (lines 166-216), from
  \<^verbatim>\<open>memcache.Get(c, e)\<close> on.
  \<open>Inr\<close> is the \<^verbatim>\<open>return\<close> (\<^verbatim>\<open>cacheResult != ""\<close>) with the named results
  \<^verbatim>\<open>(cacheResult, commits, ok)\<close>, or the panic of the slice expression
  \<^verbatim>\<open>decoded.Log[dist:]\<close> when \<^verbatim>\<open>dist\<close> is beyond the length of the list;
  \<open>Inl\<close> is the next iteration, with the new \<^verbatim>\<open>e\<close> and \<^verbatim>\<open>dist\<close>.
  \<^verbatim>\<open>dist\<close>, \<^verbatim>\<open>meta\<close> and \<^verbatim>\<open>maxDist\<close> are bytes: \<open>+\<close> wraps around.
\<close>

definition readCache_step ::
  "env \<Rightarrow> logReq \<Rightarrow> byte \<Rightarrow> Item \<Rightarrow> byte \<Rightarrow> (Item \<times> byte) + readResult outcome" where
  "readCache_step ev l maxDist e dist =
     (case memcache_Get ev (Key e) of
        ErrCacheMiss \<Rightarrow> Inr (Val (cacheMiss, [], False))
      | GetError msg \<Rightarrow> Inr (Val (cacheFailure, [], False))
      | Got v \<Rightarrow>
          if length v = 0 then Inr (Val (decodingFailure, [], False))
          else
            let n = length v; data = take (n - 1) v; meta = v ! (n - 1) in
            if meta = 0 then
              (case proto_Unmarshal ev data of
                 Inl err \<Rightarrow> Inr (Val (decodingFailure, [], False))
               | Inr decoded \<Rightarrow>
                   if unat dist \<le> length (Log decoded)
                   then Inr (Val (cacheHit, drop (unat dist) (Log decoded), True))
                   else Inr (Panic ''slice bounds out of range''))
            else if meta \<ge> 100 then Inr (Val (decodingFailure, [], False))
            else if dist + meta \<le> maxDist then
              Inl (mkCache l (hex_EncodeToString data), dist + meta)
            else Inr (Val (cacheMiss, [], False)))"

text \<open>
  The loop has no bound of its own in the source (\<^verbatim>\<open>for { ... }\<close>), so it is a partial
  function: \<open>None\<close> is a loop that never returns. The trace gets one \<open>MemcacheGet\<close>
  per iteration.
\<close>

partial_function (option) readCache_loop ::
  "env \<Rightarrow> logReq \<Rightarrow> byte \<Rightarrow> Item \<Rightarrow> byte \<Rightarrow> event list \<Rightarrow> (event list \<times> readResult outcome) option"
  where
  "readCache_loop ev l maxDist e dist tr =
     (case readCache_step ev l maxDist e dist of
        Inl (e', dist') \<Rightarrow> readCache_loop ev l maxDist e' dist' (tr @ [MemcacheGet [Key e]])
      | Inr r \<Rightarrow> Some (tr @ [MemcacheGet [Key e]], r))"

text \<open>\<^verbatim>\<open>e := l.commitishEntry; dist := byte(0); maxDist := byte(100 - l.min)\<close>.\<close>

definition readCache :: "env \<Rightarrow> logReq \<Rightarrow> (event list \<times> readResult outcome) option" where
  "readCache ev l = readCache_loop ev l (word_of_int (100 - min' l)) (commitishEntry l) 0 []"

subsection \<open>writeCache\<close>

text \<open>
  Lines 242-244:
  \<^verbatim>\<open>for i := 1; i < len(res.Log) && len(res.Log[i-1].Parents) == 1; i++\<close>, appending
  \<^verbatim>\<open>l.mkCache(c, hex.EncodeToString(res.Log[i].Id))\<close> to \<^verbatim>\<open>ancestorCaches\<close>.
\<close>

function ancestorCaches_loop :: "logReq \<Rightarrow> Commit list \<Rightarrow> nat \<Rightarrow> Item list \<Rightarrow> Item list" where
  "ancestorCaches_loop l lg i acc =
     (if i < length lg \<and> length (Parents (lg ! (i - 1))) = 1
      then ancestorCaches_loop l lg (i + 1) (acc @ [mkCache l (hex_EncodeToString (Id (lg ! i)))])
      else acc)"
  by pat_completeness auto
termination
  by (relation "measure (\<lambda>(l, lg, i, acc). length lg - i)") auto

declare ancestorCaches_loop.simps [simp del]

text \<open>
  Lines 245-259: \<^verbatim>\<open>memcache.Get(c, ancestorCaches...)\<close> followed by the loop over the
  errors. An item that was read has the stored value; an item whose read failed (a miss
  or another error) gets \<^verbatim>\<open>SetValue(nil)\<close>, or has been left with the empty value it
  was created with.
\<close>

definition probe :: "env \<Rightarrow> Item \<Rightarrow> Item" where
  "probe ev e =
     (case memcache_Get ev (Key e) of
        Got v \<Rightarrow> e\<lparr>Value := v\<rparr>
      | ErrCacheMiss \<Rightarrow> e\<lparr>Value := []\<rparr>
      | GetError msg \<Rightarrow> e\<lparr>Value := []\<rparr>)"

text \<open>
  Lines 260-273:
  \<^verbatim>\<open>for i, e := range ancestorCaches\<close>: \<^verbatim>\<open>dist := byte(i + 1)\<close>; an entry that is not
  empty and whose last byte is at most \<^verbatim>\<open>dist\<close> is left alone
  (\<^verbatim>\<open>len(v) > 0 && v[len(v)-1] <= dist\<close>, here \<open>notWorse\<close>), otherwise the value
  becomes the identifier of \<^verbatim>\<open>res.Log[0]\<close> followed by \<^verbatim>\<open>dist\<close>, and the item is
  appended to \<^verbatim>\<open>caches\<close>.
\<close>

definition notWorse :: "byte list \<Rightarrow> byte \<Rightarrow> bool" where
  "notWorse v dist = (length v > 0 \<and> v ! (length v - 1) \<le> dist)"

fun pointers_loop :: "byte list \<Rightarrow> nat \<Rightarrow> Item list \<Rightarrow> Item list \<Rightarrow> Item list" where
  "pointers_loop id0 i [] caches = caches"
| "pointers_loop id0 i (e # es) caches =
     (let dist = (of_nat (i + 1) :: byte) in
      if notWorse (Value e) dist
      then pointers_loop id0 (i + 1) es caches
      else pointers_loop id0 (i + 1) es (caches @ [e\<lparr>Value := id0 @ [dist]\<rparr>]))"

text \<open>
  Lines 227-237: \<^verbatim>\<open>l.commitishEntry.SetValue(append(marshalled, 0))\<close>,
  \<^verbatim>\<open>caches[0] = l.commitishEntry\<close> and, when the commitish is not a hash and the log is
  not empty, a second item with the same value under the hexadecimal identifier of
  \<^verbatim>\<open>res.Log[0]\<close>.
\<close>

definition directCaches :: "logReq \<Rightarrow> byte list \<Rightarrow> LogResponse \<Rightarrow> Item list" where
  "directCaches l marshalled res =
     (let entry = (commitishEntry l)\<lparr>Value := marshalled @ [0]\<rparr>;
          caches = [entry]
      in if \<not> commitishIsHash l \<and> length (Log res) > 0
         then caches @ [(mkCache l (hex_EncodeToString (Id (Log res ! 0))))\<lparr>Value := Value entry\<rparr>]
         else caches)"

text \<open>
  \<^verbatim>\<open>writeCache\<close> (lines 219-283) returns nothing; the model returns the events it
  causes. When \<^verbatim>\<open>proto.Marshal\<close> fails the function returns before touching the cache.
  With more than one commit it reads the ancestor items in one \<^verbatim>\<open>memcache.Get\<close> and
  then sets the whole batch in one \<^verbatim>\<open>memcache.Set\<close>.
\<close>

definition writeCache :: "env \<Rightarrow> logReq \<Rightarrow> LogResponse \<Rightarrow> event list" where
  "writeCache ev l res =
     (case proto_Marshal ev res of
        Inl err \<Rightarrow> []
      | Inr marshalled \<Rightarrow>
          let caches = directCaches l marshalled res
          in if length (Log res) > 1 then
               let ancestorCaches = ancestorCaches_loop l (Log res) 1 [];
                   probed = map (probe ev) ancestorCaches
               in [MemcacheGet (map Key ancestorCaches),
                   MemcacheSet (pointers_loop (Id (Log res ! 0)) 0 probed caches)]
             else [MemcacheSet caches])"

subsection \<open>call and Log\<close>

text \<open>
  \<^verbatim>\<open>call\<close> (lines 108-160). The deferred function adds to the counter when \<^verbatim>\<open>call\<close>
  leaves, also by
  a panic of \<^verbatim>\<open>readCache\<close>; \<^verbatim>\<open>cacheResult\<close> is then still the empty string, since the
  assignment from \<^verbatim>\<open>readCache\<close> never happened. The \<^verbatim>\<open>defer\<close> statement comes after
  the namespace check: a namespace error returns with no counter.

  \<open>call_init\<close> is the assignment of the two fields that \<^verbatim>\<open>call\<close> sets
  (\<^verbatim>\<open>commitishIsHash\<close>, and \<^verbatim>\<open>commitishEntry\<close> with its 30 seconds when the commitish
  is not a hash); \<open>counterRef\<close> is the \<^verbatim>\<open>ref\<close> of the deferred function;
  \<open>call_gitiles\<close> is the part after the comment \<^verbatim>\<open>// Call Gitiles.\<close>: the client
  factory, \<^verbatim>\<open>g.Log\<close> with page size 100, and \<^verbatim>\<open>writeCache\<close> on success.
\<close>

definition call_init :: "logReq \<Rightarrow> logReq" where
  "call_init l =
     (let isHash = gitHash_MatchString (commitish l);
          entry = (if \<not> isHash then (mkCache l (commitish l))\<lparr>Expiration := 30\<rparr>
                   else mkCache l (commitish l))
      in l\<lparr>commitishIsHash := isHash, commitishEntry := entry\<rparr>)"

definition counterRef :: "logReq \<Rightarrow> string" where
  "counterRef l = (if commitishIsHash l then ''PINNED'' else commitish l)"

definition call_gitiles :: "env \<Rightarrow> logReq \<Rightarrow> event list \<times> result" where
  "call_gitiles ev l =
     (case Client ev (host l) of
        Inl err \<Rightarrow> ([GitilesClient (host l)], Failed err)
      | Inr g \<Rightarrow>
          let req = \<lparr>Project = project l, Treeish = commitish l, PageSize = 100\<rparr> in
          (case g req of
             Inl err \<Rightarrow>
               ([GitilesClient (host l), GitilesLog req], Failed (Annotate err ''gitiles.Log''))
           | Inr res \<Rightarrow>
               ([GitilesClient (host l), GitilesLog req] @ writeCache ev l res,
                Returned (Log res))))"

definition call :: "env \<Rightarrow> logReq \<Rightarrow> (event list \<times> result) option" where
  "call ev l0 =
     (case info_Namespace ev of
        Some err \<Rightarrow> Some ([], Failed (Annotate err ''could not set namespace''))
      | None \<Rightarrow>
          let l = call_init l0 in
          (case readCache ev l of
             None \<Rightarrow> None
           | Some (tr, Panic msg) \<Rightarrow>
               Some (tr @ [CounterAdd [] (host l) (project l) (counterRef l)], Panicked msg)
           | Some (tr, Val (cacheResult, commits, ok)) \<Rightarrow>
               let counter = CounterAdd cacheResult (host l) (project l) (counterRef l) in
               if ok then Some (tr @ [counter], Returned commits)
               else Some (tr @ fst (call_gitiles ev l) @ [counter], snd (call_gitiles ev l))))"

text \<open>
  \<^verbatim>\<open>Log\<close> (lines 46-62): \<^verbatim>\<open>min <= 0\<close> becomes 50, \<^verbatim>\<open>min > 100\<close> panics. The function is
  \<open>Log'\<close> here, \<open>Log\<close> being the field of \<open>LogResponse\<close>. \<open>newLogReq\<close> is the
  struct literal \<^verbatim>\<open>&logReq{...}\<close>; \<^verbatim>\<open>commitishEntry\<close> starts as the zero value and is
  set by \<^verbatim>\<open>call\<close>.
\<close>

definition newLogReq :: "string \<Rightarrow> string \<Rightarrow> string \<Rightarrow> int \<Rightarrow> logReq" where
  "newLogReq h p c m =
     \<lparr>host = h, project = p, commitish = c, min' = m,
      commitishIsHash = gitHash_MatchString c,
      commitishEntry = \<lparr>Key = [], Value = [], Expiration = 0\<rparr>\<rparr>"

definition Log' :: "env \<Rightarrow> string \<Rightarrow> string \<Rightarrow> string \<Rightarrow> int \<Rightarrow> (event list \<times> result) option" where
  "Log' ev h p c m =
     (case (if m \<le> 0 then Val 50
            else if m > 100 then Panic ''min cannot be > 100''
            else Val m) of
        Panic msg \<Rightarrow> Some ([], Panicked msg)
      | Val m' \<Rightarrow> call ev (newLogReq h p c m'))"

subsection \<open>A serializer for the concrete environments\<close>

text \<open>
  \<^verbatim>\<open>proto.Marshal\<close> and \<^verbatim>\<open>proto.Unmarshal\<close> belong to the protobuf library, not to this
  code, and stay fields of the environment in every general statement. The concrete
  environments below carry the following serializer in their place: length-delimited
  fields with protobuf's tags (field number times 8, plus wire type 2) and base-128
  lengths. A commit has its identifier in field 1, its tree in field 2, its parents in
  field 3 and its message in field 6; a response has its commits in field 1 and the page
  token in field 2.
\<close>

function put_varint :: "nat \<Rightarrow> byte list" where
  "put_varint n = (if n < 128 then [of_nat n] else of_nat (128 + n mod 128) # put_varint (n div 128))"
  by pat_completeness auto
termination
  by (relation "measure id") auto

declare put_varint.simps [simp del]

fun get_varint :: "byte list \<Rightarrow> (nat \<times> byte list) option" where
  "get_varint [] = None"
| "get_varint (b # bs) =
     (if b < 128 then Some (unat b, bs)
      else (case get_varint bs of
              None \<Rightarrow> None
            | Some (n, r) \<Rightarrow> Some (unat b - 128 + 128 * n, r)))"

definition put_field :: "nat \<Rightarrow> byte list \<Rightarrow> byte list" where
  "put_field k payload = of_nat (8 * k + 2) # put_varint (length payload) @ payload"

text \<open>The first argument bounds the number of fields; the length of the input is enough.\<close>

primrec get_fields :: "nat \<Rightarrow> byte list \<Rightarrow> (nat \<times> byte list) list option" where
  "get_fields 0 bs = (if bs = [] then Some [] else None)"
| "get_fields (Suc f) bs =
     (case bs of
        [] \<Rightarrow> Some []
      | t # r \<Rightarrow>
          if t AND 7 \<noteq> 2 then None
          else (case get_varint r of
                  None \<Rightarrow> None
                | Some (n, p) \<Rightarrow>
                    if length p < n then None
                    else map_option (\<lambda>fs. (unat (drop_bit 3 t), take n p) # fs)
                           (get_fields f (drop n p))))"

definition fields_of :: "nat \<Rightarrow> (nat \<times> byte list) list \<Rightarrow> byte list list" where
  "fields_of k fs = map snd (filter (\<lambda>f. fst f = k) fs)"

definition field_of :: "nat \<Rightarrow> (nat \<times> byte list) list \<Rightarrow> byte list" where
  "field_of k fs = (case fields_of k fs of [] \<Rightarrow> [] | x # xs \<Rightarrow> last (x # xs))"

definition put_opt :: "nat \<Rightarrow> byte list \<Rightarrow> byte list" where
  "put_opt k payload = (if payload = [] then [] else put_field k payload)"

definition byte_of_char :: "char \<Rightarrow> byte" where
  "byte_of_char ch = of_nat (of_char ch)"

definition char_of_byte :: "byte \<Rightarrow> char" where
  "char_of_byte b = char_of (unat b)"

definition wire_Commit :: "Commit \<Rightarrow> byte list" where
  "wire_Commit c =
     put_opt 1 (Id c) @ put_opt 2 (Tree c) @ concat (map (put_field 3) (Parents c))
       @ put_opt 6 (map byte_of_char (Message c))"

definition unwire_Commit :: "byte list \<Rightarrow> Commit option" where
  "unwire_Commit bs =
     map_option
       (\<lambda>fs. \<lparr>Id = field_of 1 fs, Tree = field_of 2 fs, Parents = fields_of 3 fs,
              Message = map char_of_byte (field_of 6 fs)\<rparr>)
       (get_fields (length bs) bs)"

definition wire_Marshal :: "LogResponse \<Rightarrow> error + byte list" where
  "wire_Marshal res =
     Inr (concat (map (\<lambda>c. put_field 1 (wire_Commit c)) (Log res))
            @ put_opt 2 (map byte_of_char (NextPageToken res)))"

definition wire_Unmarshal :: "byte list \<Rightarrow> error + LogResponse" where
  "wire_Unmarshal bs =
     (case get_fields (length bs) bs of
        None \<Rightarrow> Inl (Err ''proto: cannot parse'')
      | Some fs \<Rightarrow>
          let cs = map unwire_Commit (fields_of 1 fs) in
          if list_all (\<lambda>c. c \<noteq> None) cs
          then Inr \<lparr>Log = map the cs, NextPageToken = map char_of_byte (field_of 2 fs)\<rparr>
          else Inl (Err ''proto: cannot parse''))"

subsection \<open>Notions used in the statements\<close>

text \<open>
  The pairs \<^verbatim>\<open>(e, dist)\<close> that the loop of \<^verbatim>\<open>readCache\<close> holds at the head of an
  iteration: the first one is \<^verbatim>\<open>(l.commitishEntry, 0)\<close>, and each following one is the
  one that the previous iteration continues with.
\<close>

inductive readCache_visits :: "env \<Rightarrow> logReq \<Rightarrow> Item \<Rightarrow> byte \<Rightarrow> bool" for ev l where
  start: "readCache_visits ev l (commitishEntry l) 0"
| follow: "readCache_visits ev l e dist \<Longrightarrow>
           readCache_step ev l (word_of_int (100 - min' l)) e dist = Inl (e', dist') \<Longrightarrow>
           readCache_visits ev l e' dist'"

code_pred readCache_visits .

text \<open>
  A pointer chain in the cache, in the words of the cache value format: a value whose
  last byte \<open>meta\<close> is in 1..99 points to the entry keyed by the hexadecimal form of the
  preceding bytes, at distance \<open>meta\<close>. \<open>pointer_chain ev h p k d k'\<close>: following pointer
  values from key \<open>k\<close> leads to key \<open>k'\<close>, the distances adding up to \<open>d\<close>.
\<close>

inductive pointer_chain :: "env \<Rightarrow> string \<Rightarrow> string \<Rightarrow> string \<Rightarrow> nat \<Rightarrow> string \<Rightarrow> bool"
  for ev h p where
  here: "pointer_chain ev h p k 0 k"
| hop: "memcache_Get ev k = Got (ident @ [meta]) \<Longrightarrow> meta \<noteq> 0 \<Longrightarrow> meta < 100 \<Longrightarrow>
        pointer_chain ev h p (cacheKey h p (hex_EncodeToString ident)) d k' \<Longrightarrow>
        pointer_chain ev h p k (unat meta + d) k'"

code_pred pointer_chain .

text \<open>
  The positions of the fetched list that get an ancestor item: 1, 2, ... as long as the
  commit just before the position has exactly one parent.
\<close>

definition ancestorPositions :: "Commit list \<Rightarrow> nat list" where
  "ancestorPositions lg = takeWhile (\<lambda>j. length (Parents (lg ! (j - 1))) = 1) [1..<length lg]"

text \<open>
  The value that the write path sees at a key after its probe: the stored value, or
  nothing when the read missed or failed. \<open>pointerItem\<close> is the item written for
  position \<open>j\<close>: the identifier of \<^verbatim>\<open>res.Log[0]\<close> and the distance byte, under the key of
  \<^verbatim>\<open>res.Log[j]\<close>.
\<close>

definition probeValue :: "env \<Rightarrow> string \<Rightarrow> byte list" where
  "probeValue ev k = (case memcache_Get ev k of Got v \<Rightarrow> v | ErrCacheMiss \<Rightarrow> [] | GetError msg \<Rightarrow> [])"

definition pointerItem :: "logReq \<Rightarrow> Commit list \<Rightarrow> nat \<Rightarrow> Item" where
  "pointerItem l lg j =
     (mkCache l (hex_EncodeToString (Id (lg ! j))))\<lparr>Value := Id (lg ! 0) @ [of_nat j]\<rparr>"

text \<open>
  The pointer items of one write, by position: those positions of the single-parent
  chain whose probed value is not already at least as good.
\<close>

definition pointerWrites :: "env \<Rightarrow> logReq \<Rightarrow> Commit list \<Rightarrow> Item list" where
  "pointerWrites ev l lg =
     map (pointerItem l lg)
       (filter (\<lambda>j. \<not> notWorse (probeValue ev (Key (pointerItem l lg j))) (of_nat j))
          (ancestorPositions lg))"

text \<open>The events that are counter increments, and those that read one cache key.\<close>

fun isCounterAdd :: "event \<Rightarrow> bool" where
  "isCounterAdd (CounterAdd r h p ref) = True"
| "isCounterAdd _ = False"

fun isSingleGet :: "event \<Rightarrow> bool" where
  "isSingleGet (MemcacheGet ks) = (length ks = 1)"
| "isSingleGet _ = False"

text \<open>
  The failures of the cache layer on the read path, as they show at one key: a miss, an
  error of the store, an empty value, a last byte in 100..255, or a direct value (last
  byte 0) that does not deserialize.
\<close>

definition cacheLayerFailure :: "env \<Rightarrow> string \<Rightarrow> bool" where
  "cacheLayerFailure ev k =
     (case memcache_Get ev k of
        ErrCacheMiss \<Rightarrow> True
      | GetError msg \<Rightarrow> True
      | Got v \<Rightarrow> v = [] \<or> last v \<ge> 100 \<or> (last v = 0 \<and> isl (proto_Unmarshal ev (butlast v))))"

subsection \<open>Concrete logs, caches and environments\<close>

text \<open>
  Commits with 20-byte identifiers (40 hexadecimal digits): \<open>linearCommit n\<close> has the
  single parent \<open>n + 1\<close>, \<open>mergeCommit n\<close> has two parents. \<open>linearLog n\<close> is the log
  of the commits 0, 1, ..., \<open>n - 1\<close>, newest first; \<open>singleLog\<close> holds commit 0 alone, \<open>twoLog\<close> the commits 0 and 1, and
  in \<open>mergeLog\<close> the second of four commits is a merge.
\<close>

definition idOf :: "nat \<Rightarrow> byte list" where
  "idOf n = replicate 20 (of_nat n)"

definition hexOf :: "nat \<Rightarrow> string" where
  "hexOf n = hex_EncodeToString (idOf n)"

definition keyOf :: "nat \<Rightarrow> string" where
  "keyOf n = cacheKey ''host'' ''proj'' (hexOf n)"

definition linearCommit :: "nat \<Rightarrow> Commit" where
  "linearCommit n = \<lparr>Id = idOf n, Tree = [], Parents = [idOf (n + 1)], Message = []\<rparr>"

definition mergeCommit :: "nat \<Rightarrow> Commit" where
  "mergeCommit n = \<lparr>Id = idOf n, Tree = [], Parents = [idOf (n + 1), idOf (n + 100)], Message = []\<rparr>"

definition linearLog :: "nat \<Rightarrow> LogResponse" where
  "linearLog n = \<lparr>Log = map linearCommit [0..<n], NextPageToken = []\<rparr>"

definition singleLog :: LogResponse where
  "singleLog = \<lparr>Log = [linearCommit 0], NextPageToken = []\<rparr>"

definition twoLog :: LogResponse where
  "twoLog = \<lparr>Log = [linearCommit 0, linearCommit 1], NextPageToken = []\<rparr>"

definition mergeLog :: LogResponse where
  "mergeLog = \<lparr>Log = [linearCommit 0, mergeCommit 1, linearCommit 2, linearCommit 3],
               NextPageToken = []\<rparr>"

definition wireBytes :: "LogResponse \<Rightarrow> byte list" where
  "wireBytes res = (case wire_Marshal res of Inr bs \<Rightarrow> bs | Inl err \<Rightarrow> [])"

text \<open>A cache given by its stored pairs; every other key is a miss.\<close>

definition cacheOf :: "(string \<times> getResult) list \<Rightarrow> string \<Rightarrow> getResult" where
  "cacheOf kvs k = (case map_of kvs k of Some g \<Rightarrow> g | None \<Rightarrow> ErrCacheMiss)"

text \<open>
  An environment with a working namespace, the given cache, a Gitiles client that
  answers every request with the given response, and the serializer above.
\<close>

definition envOf :: "(string \<times> getResult) list \<Rightarrow> LogResponse \<Rightarrow> env" where
  "envOf kvs res =
     \<lparr>info_Namespace = None, memcache_Get = cacheOf kvs,
      Client = (\<lambda>h. Inr (\<lambda>req. Inr res)),
      proto_Marshal = wire_Marshal, proto_Unmarshal = wire_Unmarshal\<rparr>"

text \<open>
  \<open>evChain\<close>: commit 2 points to commit 0 at distance 2, and commit 0 has a direct entry
  with the log of four commits. \<open>evShort\<close>: commit 5 points to commit 0 at distance 5,
  but the direct entry of commit 0 holds one commit only. \<open>evEmpty\<close>: nothing cached.
  \<open>evBroken\<close>: the store fails on the key of the branch. \<open>evNoNamespace\<close>: the
  namespace cannot be set. \<open>evEmptyValue\<close>: the key of commit 1 holds a value of length
  zero. \<open>evDirect\<close>: the key of commit 1 holds a direct entry. \<open>evRemoteDown\<close>:
  nothing cached and no Gitiles client to be had.
\<close>

definition evChain :: env where
  "evChain = envOf [(keyOf 2, Got (idOf 0 @ [2])),
                    (keyOf 0, Got (wireBytes (linearLog 4) @ [0]))] (linearLog 4)"

definition evShort :: env where
  "evShort = envOf [(keyOf 5, Got (idOf 0 @ [5])),
                    (keyOf 0, Got (wireBytes singleLog @ [0]))] (linearLog 4)"

definition evEmpty :: env where
  "evEmpty = envOf [] (linearLog 4)"

definition evBroken :: env where
  "evBroken = envOf [(cacheKey ''host'' ''proj'' ''refs/heads/main'', GetError ''memcache: server error'')]
                (linearLog 4)"

definition evNoNamespace :: env where
  "evNoNamespace = (envOf [] (linearLog 4))\<lparr>info_Namespace := Some (Err ''namespace'')\<rparr>"

definition evEmptyValue :: env where
  "evEmptyValue = envOf [(keyOf 1, Got [])] twoLog"

definition evDirect :: env where
  "evDirect = envOf [(keyOf 1, Got (wireBytes (linearLog 3) @ [0]))] (linearLog 3)"

definition evRemoteDown :: env where
  "evRemoteDown = (envOf [] (linearLog 4))\<lparr>Client := (\<lambda>h. Inl (Err ''no client factory''))\<rparr>"

text \<open>The request for the branch, as \<^verbatim>\<open>call\<close> has set it up.\<close>

definition mainReq :: logReq where
  "mainReq = call_init (newLogReq ''host'' ''proj'' ''refs/heads/main'' 50)"

section \<open>Auxiliary facts\<close>

subsection \<open>Bytes\<close>

text \<open>
  The distances are bytes. Within the budget no addition wraps around.
\<close>

lemma maxDist_unat:
  assumes "1 \<le> m" "m \<le> 100"
  shows "unat (word_of_int (100 - m) :: byte) = nat (100 - m)"
proof -
  have "(word_of_int (100 - m) :: byte) = of_nat (nat (100 - m))"
    using assms by simp
  moreover have "nat (100 - m) < 2 ^ LENGTH(8)" using assms by simp
  ultimately show ?thesis by (simp only: unat_of_nat mod_less)
qed

lemma add_no_wrap:
  fixes a b :: byte
  assumes "unat a \<le> 156" "b < 100"
  shows "unat (a + b) = unat a + unat b"
proof -
  have "unat b < 100" using assms(2) by (simp add: word_less_nat_alt)
  then have "unat a + unat b < 2 ^ LENGTH(8)" using assms(1) by simp
  then show ?thesis by (simp only: unat_add_lem)
qed

lemma over_budget:
  fixes dist meta maxDist :: byte
  assumes "unat dist \<le> unat maxDist" "unat maxDist \<le> 156" "meta < 100"
    and "unat maxDist < unat dist + unat meta"
  shows "\<not> dist + meta \<le> maxDist"
proof -
  have "unat dist \<le> 156" using assms(1,2) by simp
  then have "unat (dist + meta) = unat dist + unat meta"
    using assms(3) by (rule add_no_wrap)
  with assms(4) show ?thesis by (simp add: word_le_nat_alt)
qed

lemma byte_of_position: "j < 256 \<Longrightarrow> unat (of_nat j :: byte) = j"
  by (simp add: unat_of_nat)

subsection \<open>One iteration of the read loop\<close>

text \<open>
  What \<open>readCache_step\<close> does on each shape of the value it finds.
\<close>

lemma readCache_step_Inl:
  assumes "readCache_step ev l maxDist e dist = Inl (e', dist')"
  shows "\<exists>v. memcache_Get ev (Key e) = Got v \<and> v \<noteq> [] \<and> last v \<noteq> 0 \<and> last v < 100
             \<and> dist + last v \<le> maxDist \<and> dist' = dist + last v
             \<and> e' = mkCache l (hex_EncodeToString (butlast v))"
  using assms
  by (auto simp: readCache_step_def Let_def last_conv_nth butlast_conv_take not_le
           split: getResult.splits if_splits sum.splits)

lemma readCache_step_progress:
  assumes "readCache_step ev l maxDist e dist = Inl (e', dist')"
    and "unat dist \<le> unat maxDist" and "unat maxDist \<le> 156"
  shows "unat dist < unat dist' \<and> unat dist' \<le> unat maxDist"
proof -
  from readCache_step_Inl [OF assms(1)] obtain v where
    v: "last v \<noteq> 0" "last v < 100" "dist + last v \<le> maxDist" "dist' = dist + last v"
    by blast
  have p: "0 < unat (last v)" using v(1) by (simp add: unat_gt_0)
  have "unat dist \<le> 156" using assms(2,3) by simp
  then have s: "unat (dist + last v) = unat dist + unat (last v)"
    using v(2) by (rule add_no_wrap)
  show ?thesis using v(3,4) s p by (simp add: word_le_nat_alt)
qed

lemma readCache_step_direct:
  assumes "memcache_Get ev (Key e) = Got (data @ [0])" "proto_Unmarshal ev data = Inr decoded"
  shows "readCache_step ev l maxDist e dist =
           (if unat dist \<le> length (Log decoded)
            then Inr (Val (cacheHit, drop (unat dist) (Log decoded), True))
            else Inr (Panic ''slice bounds out of range''))"
  using assms by (simp add: readCache_step_def Let_def nth_append)

lemma readCache_step_pointer:
  assumes "memcache_Get ev (Key e) = Got (ident @ [meta])" "meta \<noteq> 0" "meta < 100"
  shows "readCache_step ev l maxDist e dist =
           (if dist + meta \<le> maxDist
            then Inl (mkCache l (hex_EncodeToString ident), dist + meta)
            else Inr (Val (cacheMiss, [], False)))"
proof -
  have "\<not> 100 \<le> meta" using assms(3) by simp
  then show ?thesis
    using assms(1,2) by (simp add: readCache_step_def Let_def nth_append)
qed

lemma readCache_step_failure:
  assumes "cacheLayerFailure ev (Key e)"
  shows "readCache_step ev l maxDist e dist =
           Inr (Val (case memcache_Get ev (Key e) of
                       ErrCacheMiss \<Rightarrow> cacheMiss
                     | GetError msg \<Rightarrow> cacheFailure
                     | Got v \<Rightarrow> decodingFailure, [], False))"
proof (cases "memcache_Get ev (Key e)")
  case ErrCacheMiss
  then show ?thesis by (simp add: readCache_step_def)
next
  case (GetError msg)
  then show ?thesis by (simp add: readCache_step_def)
next
  case (Got v)
  show ?thesis
  proof (cases "v = []")
    case True
    with Got show ?thesis by (simp add: readCache_step_def)
  next
    case False
    then have lv: "v ! (length v - 1) = last v" "take (length v - 1) v = butlast v"
      by (simp_all add: last_conv_nth butlast_conv_take)
    from assms Got False
    have "last v \<ge> 100 \<or> (last v = 0 \<and> isl (proto_Unmarshal ev (butlast v)))"
      by (simp add: cacheLayerFailure_def)
    then show ?thesis
    proof
      assume "last v \<ge> 100"
      moreover from this have "last v \<noteq> 0" by auto
      ultimately show ?thesis using Got False lv
        by (simp add: readCache_step_def Let_def)
    next
      assume "last v = 0 \<and> isl (proto_Unmarshal ev (butlast v))"
      then show ?thesis using Got False lv
        by (auto simp: readCache_step_def Let_def isl_def)
    qed
  qed
qed

lemma readCache_step_label:
  assumes "readCache_step ev l maxDist e dist = Inr (Val (cr, cs, ok))"
  shows "cr \<in> {cacheHit, cacheMiss, cacheFailure, decodingFailure}
         \<and> (ok \<longleftrightarrow> cr = cacheHit) \<and> (\<not> ok \<longrightarrow> cs = [])"
  using assms
  by (auto simp: readCache_step_def Let_def cacheHit_def cacheMiss_def cacheFailure_def decodingFailure_def
           split: getResult.splits if_splits sum.splits)

lemma readCache_step_Panic:
  assumes "readCache_step ev l maxDist e dist = Inr (Panic msg)"
  shows "msg = ''slice bounds out of range''
         \<and> (\<exists>v decoded. memcache_Get ev (Key e) = Got v \<and> v \<noteq> [] \<and> last v = 0
               \<and> proto_Unmarshal ev (butlast v) = Inr decoded
               \<and> length (Log decoded) < unat dist)"
proof (cases "memcache_Get ev (Key e)")
  case ErrCacheMiss
  with assms show ?thesis by (simp add: readCache_step_def)
next
  case (GetError m)
  with assms show ?thesis by (simp add: readCache_step_def)
next
  case (Got v)
  show ?thesis
  proof (cases "v = []")
    case True
    with Got assms show ?thesis by (simp add: readCache_step_def)
  next
    case False
    then have lv: "v ! (length v - 1) = last v" "take (length v - 1) v = butlast v"
      by (simp_all add: last_conv_nth butlast_conv_take)
    from assms Got False lv show ?thesis
      by (auto simp: readCache_step_def Let_def split: if_splits sum.splits)
  qed
qed

subsection \<open>The read loop\<close>

text \<open>
  Unfolding the loop by one iteration; its termination within the budget; what can be
  said of any result it returns; and the pairs it visits.
\<close>

lemma readCache_loop_Inl:
  "readCache_step ev l maxDist e dist = Inl (e', dist') \<Longrightarrow>
   readCache_loop ev l maxDist e dist tr
     = readCache_loop ev l maxDist e' dist' (tr @ [MemcacheGet [Key e]])"
  by (subst readCache_loop.simps) simp

lemma readCache_loop_Inr:
  "readCache_step ev l maxDist e dist = Inr r \<Longrightarrow>
   readCache_loop ev l maxDist e dist tr = Some (tr @ [MemcacheGet [Key e]], r)"
  by (subst readCache_loop.simps) simp

lemma readCache_loop_returns:
  assumes "unat maxDist \<le> 156"
  shows "unat dist \<le> unat maxDist \<Longrightarrow>
         \<exists>gets r. readCache_loop ev l maxDist e dist tr = Some (tr @ gets, r)
                 \<and> 0 < length gets \<and> length gets \<le> unat maxDist - unat dist + 1
                 \<and> (\<forall>x \<in> set gets. \<exists>k. x = MemcacheGet [k])"
proof (induction "unat maxDist - unat dist" arbitrary: e dist tr rule: less_induct)
  case less
  show ?case
  proof (cases "readCache_step ev l maxDist e dist")
    case (Inr r)
    then have "readCache_loop ev l maxDist e dist tr = Some (tr @ [MemcacheGet [Key e]], r)"
      by (subst readCache_loop.simps) simp
    then show ?thesis by auto
  next
    case (Inl p)
    obtain e' dist' where p: "p = (e', dist')" by (cases p)
    from readCache_step_progress [OF Inl [unfolded p] less.prems assms]
    have pr: "unat dist < unat dist'" "unat dist' \<le> unat maxDist" by simp_all
    then have "unat maxDist - unat dist' < unat maxDist - unat dist" by arith
    from less.hyps [OF this pr(2), of e' "tr @ [MemcacheGet [Key e]]"]
    obtain gets r where g:
      "readCache_loop ev l maxDist e' dist' (tr @ [MemcacheGet [Key e]])
         = Some ((tr @ [MemcacheGet [Key e]]) @ gets, r)"
      "length gets \<le> unat maxDist - unat dist' + 1"
      "\<forall>x \<in> set gets. \<exists>k. x = MemcacheGet [k]"
      by blast
    have "readCache_loop ev l maxDist e dist tr = Some (tr @ (MemcacheGet [Key e] # gets), r)"
      using Inl p g(1) by (subst readCache_loop.simps) simp
    moreover have "length (MemcacheGet [Key e] # gets) \<le> unat maxDist - unat dist + 1"
      using g(2) pr by simp
    ultimately show ?thesis using g(3) by auto
  qed
qed

lemma readCache_returns:
  assumes "1 \<le> min' l" "min' l \<le> 100"
  shows "\<exists>gets r. readCache ev l = Some (gets, r)
                 \<and> 0 < length gets \<and> length gets \<le> nat (100 - min' l) + 1
                 \<and> (\<forall>x \<in> set gets. \<exists>k. x = MemcacheGet [k])"
proof -
  let ?maxDist = "word_of_int (100 - min' l) :: byte"
  have u: "unat ?maxDist = nat (100 - min' l)" using assms by (rule maxDist_unat)
  then have b: "unat ?maxDist \<le> 156" using assms by simp
  have "unat (0 :: byte) \<le> unat ?maxDist" by simp
  from readCache_loop_returns [OF b this, of ev l "commitishEntry l" "[]"] u
  show ?thesis by (simp add: readCache_def)
qed

lemma readCache_loop_result:
  assumes "readCache_loop ev l maxDist e dist tr = Some y"
  shows "\<exists>e' dist' tr'. readCache_step ev l maxDist e' dist' = Inr (snd y) \<and> fst y = tr' @ [MemcacheGet [Key e']]"
proof (rule readCache_loop.raw_induct
    [where P = "\<lambda>ev l maxDist e dist tr y. \<exists>e' dist' tr'.
        readCache_step ev l maxDist e' dist' = Inr (snd y) \<and> fst y = tr' @ [MemcacheGet [Key e']]",
     OF _ assms])
  fix f ev l maxDist e dist tr and y :: "event list \<times> readResult outcome"
  assume IH: "\<And>ev l maxDist e dist tr y. f ev l maxDist e dist tr = Some y \<Longrightarrow>
      \<exists>e' dist' tr'. readCache_step ev l maxDist e' dist' = Inr (snd y) \<and> fst y = tr' @ [MemcacheGet [Key e']]"
    and body: "(case readCache_step ev l maxDist e dist of
        Inl (e', dist') \<Rightarrow> f ev l maxDist e' dist' (tr @ [MemcacheGet [Key e]])
      | Inr r \<Rightarrow> Some (tr @ [MemcacheGet [Key e]], r)) = Some y"
  show "\<exists>e' dist' tr'. readCache_step ev l maxDist e' dist' = Inr (snd y) \<and> fst y = tr' @ [MemcacheGet [Key e']]"
  proof (cases "readCache_step ev l maxDist e dist")
    case (Inl p)
    obtain e' dist' where p: "p = (e', dist')" by (cases p)
    with body Inl have "f ev l maxDist e' dist' (tr @ [MemcacheGet [Key e]]) = Some y" by simp
    from IH [OF this] show ?thesis .
  next
    case (Inr r)
    with body have "y = (tr @ [MemcacheGet [Key e]], r)" by simp
    with Inr show ?thesis by auto
  qed
qed

lemma readCache_loop_trace:
  assumes "readCache_loop ev l maxDist e dist tr = Some y"
  shows "\<exists>gets. fst y = tr @ gets \<and> (\<forall>x \<in> set gets. isSingleGet x)"
proof (rule readCache_loop.raw_induct
    [where P = "\<lambda>ev l maxDist e dist tr y. \<exists>gets. fst y = tr @ gets \<and> (\<forall>x \<in> set gets. isSingleGet x)",
     OF _ assms])
  fix f ev l maxDist e dist tr and y :: "event list \<times> readResult outcome"
  assume IH: "\<And>ev l maxDist e dist tr y. f ev l maxDist e dist tr = Some y \<Longrightarrow>
      \<exists>gets. fst y = tr @ gets \<and> (\<forall>x \<in> set gets. isSingleGet x)"
    and body: "(case readCache_step ev l maxDist e dist of
        Inl (e', dist') \<Rightarrow> f ev l maxDist e' dist' (tr @ [MemcacheGet [Key e]])
      | Inr r \<Rightarrow> Some (tr @ [MemcacheGet [Key e]], r)) = Some y"
  show "\<exists>gets. fst y = tr @ gets \<and> (\<forall>x \<in> set gets. isSingleGet x)"
  proof (cases "readCache_step ev l maxDist e dist")
    case (Inl q)
    obtain e' dist' where q: "q = (e', dist')" by (cases q)
    with body Inl have "f ev l maxDist e' dist' (tr @ [MemcacheGet [Key e]]) = Some y" by simp
    from IH [OF this] obtain gets where
      "fst y = (tr @ [MemcacheGet [Key e]]) @ gets" "\<forall>x \<in> set gets. isSingleGet x" by blast
    then have "fst y = tr @ (MemcacheGet [Key e] # gets)
               \<and> (\<forall>x \<in> set (MemcacheGet [Key e] # gets). isSingleGet x)" by simp
    then show ?thesis by blast
  next
    case (Inr r)
    with body have "fst y = tr @ [MemcacheGet [Key e]]
                    \<and> (\<forall>x \<in> set [MemcacheGet [Key e]]. isSingleGet x)" by auto
    then show ?thesis by blast
  qed
qed

lemma readCache_no_counter:
  assumes "readCache ev l = Some (tr, r)"
  shows "filter isCounterAdd tr = []"
proof -
  from readCache_loop_trace [OF assms [unfolded readCache_def]]
  have "\<forall>x \<in> set tr. isSingleGet x" by simp
  moreover have "isSingleGet x \<Longrightarrow> \<not> isCounterAdd x" for x by (cases x) simp_all
  ultimately show ?thesis by (auto simp: filter_empty_conv)
qed

lemma readCache_label:
  assumes "readCache ev l = Some (tr, Val (cr, cs, ok))"
  shows "cr \<in> {''hit'', ''miss'', ''failure-cache'', ''failure-decoding''} \<and> (ok \<longleftrightarrow> cr = ''hit'')"
proof -
  from readCache_loop_result [OF assms [unfolded readCache_def]]
  obtain e' dist' where
    "readCache_step ev l (word_of_int (100 - min' l)) e' dist' = Inr (Val (cr, cs, ok))"
    by auto
  from readCache_step_label [OF this] show ?thesis
    by (simp add: cacheHit_def cacheMiss_def cacheFailure_def decodingFailure_def)
qed

lemma readCache_ends:
  assumes "readCache ev l = Some (tr, r)"
  shows "(\<exists>cs. r = Val (cacheHit, cs, True))
         \<or> r = Val (cacheMiss, [], False)
         \<or> r = Val (cacheFailure, [], False)
         \<or> r = Val (decodingFailure, [], False)
         \<or> r = Panic ''slice bounds out of range''"
proof -
  from readCache_loop_result [OF assms [unfolded readCache_def]]
  obtain e' dist' where
    s: "readCache_step ev l (word_of_int (100 - min' l)) e' dist' = Inr r"
    by auto
  show ?thesis
  proof (cases r)
    case (Panic msg)
    with readCache_step_Panic [of ev l _ e' dist' msg] s show ?thesis by simp
  next
    case (Val t)
    obtain cr cs ok where t: "t = (cr, cs, ok)" by (cases t)
    from readCache_step_label [of ev l _ e' dist' cr cs ok] s Val t
    show ?thesis by auto
  qed
qed

lemma readCache_visits_loop:
  assumes "readCache_visits ev l e dist"
  shows "\<exists>tr. readCache ev l = readCache_loop ev l (word_of_int (100 - min' l)) e dist tr"
  using assms
proof (induction rule: readCache_visits.induct)
  case start
  show ?case unfolding readCache_def by blast
next
  case (follow e dist e' dist')
  then obtain tr where
    "readCache ev l = readCache_loop ev l (word_of_int (100 - min' l)) e dist tr" by blast
  also have "\<dots> = readCache_loop ev l (word_of_int (100 - min' l)) e' dist' (tr @ [MemcacheGet [Key e]])"
    using follow.hyps(2) by (subst readCache_loop.simps) simp
  finally show ?case by blast
qed

lemma readCache_visits_return:
  assumes "readCache_visits ev l e dist"
    and "readCache_step ev l (word_of_int (100 - min' l)) e dist = Inr r"
  shows "\<exists>tr. readCache ev l = Some (tr @ [MemcacheGet [Key e]], r)"
proof -
  from readCache_visits_loop [OF assms(1)] obtain tr where
    "readCache ev l = readCache_loop ev l (word_of_int (100 - min' l)) e dist tr" by blast
  also have "\<dots> = Some (tr @ [MemcacheGet [Key e]], r)"
    using assms(2) by (subst readCache_loop.simps) simp
  finally show ?thesis by blast
qed

lemma readCache_visits_budget:
  assumes "1 \<le> min' l" "min' l \<le> 100" "readCache_visits ev l e dist"
  shows "unat dist \<le> nat (100 - min' l)"
  using assms(3)
proof (induction rule: readCache_visits.induct)
  case start
  show ?case by simp
next
  case (follow e dist e' dist')
  let ?maxDist = "word_of_int (100 - min' l) :: byte"
  have u: "unat ?maxDist = nat (100 - min' l)" using assms(1,2) by (rule maxDist_unat)
  then have b: "unat ?maxDist \<le> 156" using assms by simp
  have "unat dist \<le> unat ?maxDist" using follow.IH u by simp
  from readCache_step_progress [OF follow.hyps(2) this b] u show ?case by simp
qed

lemma visits_over_budget_miss:
  assumes "1 \<le> min' l" "min' l \<le> 100" "readCache_visits ev l e dist"
    and "memcache_Get ev (Key e) = Got (ident @ [meta])" "meta \<noteq> 0" "meta < 100"
    and "nat (100 - min' l) < unat dist + unat meta"
  shows "\<exists>tr. readCache ev l = Some (tr, Val (cacheMiss, [], False))"
proof -
  let ?maxDist = "word_of_int (100 - min' l) :: byte"
  have u: "unat ?maxDist = nat (100 - min' l)" using assms(1,2) by (rule maxDist_unat)
  then have b: "unat ?maxDist \<le> 156" using assms(1,2) by simp
  have d: "unat dist \<le> unat ?maxDist"
    using readCache_visits_budget [OF assms(1,2,3)] u by simp
  have "\<not> dist + meta \<le> ?maxDist"
    using d b assms(6) assms(7) u by (intro over_budget) simp_all
  then have "readCache_step ev l ?maxDist e dist = Inr (Val (cacheMiss, [], False))"
    using readCache_step_pointer [OF assms(4,5,6), of l ?maxDist dist] by simp
  from readCache_visits_return [OF assms(3) this] show ?thesis by blast
qed

lemma visits_failure:
  assumes "readCache_visits ev l e dist" and "cacheLayerFailure ev (Key e)"
  shows "\<exists>tr. readCache ev l =
           Some (tr, Val (case memcache_Get ev (Key e) of
                            ErrCacheMiss \<Rightarrow> cacheMiss
                          | GetError msg \<Rightarrow> cacheFailure
                          | Got v \<Rightarrow> decodingFailure, [], False))"
proof -
  from readCache_visits_return [OF assms(1) readCache_step_failure [OF assms(2)]]
  show ?thesis by blast
qed

lemma chain_hit:
  assumes "proto_Unmarshal ev data = Inr decoded"
    and "host l = h" "project l = p" "unat maxDist \<le> 156"
  shows "pointer_chain ev h p k d k' \<Longrightarrow> memcache_Get ev k' = Got (data @ [0]) \<Longrightarrow>
         Key e = k \<Longrightarrow> unat dist + d \<le> unat maxDist \<Longrightarrow> unat dist + d \<le> length (Log decoded) \<Longrightarrow>
         \<exists>gets. readCache_loop ev l maxDist e dist tr
                  = Some (tr @ gets, Val (cacheHit, drop (unat dist + d) (Log decoded), True))
                \<and> (\<forall>x \<in> set gets. isSingleGet x)"
proof (induction arbitrary: e dist tr rule: pointer_chain.induct)
  case (here k)
  have "readCache_step ev l maxDist e dist = Inr (Val (cacheHit, drop (unat dist) (Log decoded), True))"
    using here assms(1) by (simp add: readCache_step_direct)
  then have "readCache_loop ev l maxDist e dist tr
               = Some (tr @ [MemcacheGet [Key e]], Val (cacheHit, drop (unat dist + 0) (Log decoded), True))"
    by (subst readCache_loop.simps) simp
  then show ?case by auto
next
  case (hop k ident meta d k')
  have m: "unat meta < 100" using hop.hyps(3) by (simp add: word_less_nat_alt)
  have "unat dist \<le> 156" using hop.prems(3) assms(4) by simp
  then have s: "unat (dist + meta) = unat dist + unat meta"
    using hop.hyps(3) by (rule add_no_wrap)
  then have le: "dist + meta \<le> maxDist" using hop.prems(3) by (simp add: word_le_nat_alt)
  let ?e' = "mkCache l (hex_EncodeToString ident)"
  have st: "readCache_step ev l maxDist e dist = Inl (?e', dist + meta)"
    using hop.hyps(1,2,3) hop.prems(2) le by (simp add: readCache_step_pointer)
  have k: "Key ?e' = cacheKey h p (hex_EncodeToString ident)"
    using assms(2,3) by (simp add: mkCache_def)
  from hop.IH [OF hop.prems(1) k, of "dist + meta" "tr @ [MemcacheGet [Key e]]"] hop.prems(3,4) s
  obtain gets where g:
    "readCache_loop ev l maxDist ?e' (dist + meta) (tr @ [MemcacheGet [Key e]])
       = Some ((tr @ [MemcacheGet [Key e]]) @ gets,
               Val (cacheHit, drop (unat dist + unat meta + d) (Log decoded), True))"
    "\<forall>x \<in> set gets. isSingleGet x"
    by (auto simp: add.assoc)
  have "readCache_loop ev l maxDist e dist tr
          = Some (tr @ (MemcacheGet [Key e] # gets),
                  Val (cacheHit, drop (unat dist + (unat meta + d)) (Log decoded), True))"
    using st g(1) by (subst readCache_loop.simps) (simp add: add.assoc)
  then show ?case using g(2) by auto
qed

subsection \<open>The write path\<close>

text \<open>
  The two loops of \<^verbatim>\<open>writeCache\<close> in closed form: the ancestor items are those of
  \<open>ancestorPositions\<close>, and the batch is the direct items followed by
  \<open>pointerWrites\<close>.
\<close>

lemma takeWhile_upt:
  "\<exists>m. takeWhile P [i..<n] = [i..<m] \<and> m \<le> max i n \<and> (\<forall>j. i \<le> j \<and> j < m \<longrightarrow> P j) \<and> (m < n \<longrightarrow> \<not> P m)"
proof (induction n)
  case 0
  show ?case by (rule exI [of _ 0]) simp
next
  case (Suc n)
  show ?case
  proof (cases "i \<le> n")
    case False
    then show ?thesis by (intro exI [of _ i]) auto
  next
    case True
    from Suc obtain m where m: "takeWhile P [i..<n] = [i..<m]" "m \<le> max i n"
      "\<forall>j. i \<le> j \<and> j < m \<longrightarrow> P j" "m < n \<longrightarrow> \<not> P m" by blast
    show ?thesis
    proof (cases "\<forall>x \<in> set [i..<n]. P x")
      case all: True
      have "takeWhile P ([i..<n] @ [n]) = [i..<n] @ takeWhile P [n]"
        using all by (intro takeWhile_append2) auto
      then have tw: "takeWhile P [i..<Suc n] = [i..<n] @ (if P n then [n] else [])"
        using True by simp
      show ?thesis
      proof (cases "P n")
        case True
        with tw \<open>i \<le> n\<close> all show ?thesis
          by (intro exI [of _ "Suc n"]) (auto simp: less_Suc_eq)
      next
        case False
        with tw \<open>i \<le> n\<close> all show ?thesis
          by (intro exI [of _ n]) auto
      qed
    next
      case notall: False
      then obtain x where "x \<in> set [i..<n]" "\<not> P x" by blast
      then have "takeWhile P ([i..<n] @ [n]) = takeWhile P [i..<n]"
        by (rule takeWhile_append1)
      then have "takeWhile P [i..<Suc n] = takeWhile P [i..<n]"
        using True by simp
      moreover have "m < n"
      proof (rule ccontr)
        assume "\<not> m < n"
        with m(2) True have "m = n" by simp
        with m(3) notall show False by auto
      qed
      ultimately show ?thesis using m by (intro exI [of _ m]) auto
    qed
  qed
qed

lemma ancestorPositions_prefix:
  assumes "j \<in> set (ancestorPositions lg)"
  shows "1 \<le> j \<and> j < length lg \<and> (\<forall>k<j. length (Parents (lg ! k)) = 1)"
proof -
  let ?P = "\<lambda>j. length (Parents (lg ! (j - 1))) = 1"
  from takeWhile_upt [of ?P 1 "length lg"] obtain m where
    m: "ancestorPositions lg = [1..<m]" "m \<le> max 1 (length lg)" "\<forall>j. 1 \<le> j \<and> j < m \<longrightarrow> ?P j"
    unfolding ancestorPositions_def by blast
  from assms m(1) have j: "1 \<le> j" "j < m" by simp_all
  have "\<forall>k<j. length (Parents (lg ! k)) = 1"
  proof (intro allI impI)
    fix k assume "k < j"
    then have "1 \<le> Suc k \<and> Suc k < m" using j by simp
    with m(3) have "?P (Suc k)" by blast
    then show "length (Parents (lg ! k)) = 1" by simp
  qed
  with j m(2) show ?thesis by auto
qed

lemma ancestorPositions_stop:
  "\<exists>m. ancestorPositions lg = [1..<m] \<and> (1 \<le> m \<and> m < length lg \<longrightarrow> length (Parents (lg ! (m - 1))) \<noteq> 1)"
proof -
  let ?P = "\<lambda>j. length (Parents (lg ! (j - 1))) = 1"
  from takeWhile_upt [of ?P 1 "length lg"] obtain m where
    "ancestorPositions lg = [1..<m]" "m < length lg \<longrightarrow> \<not> ?P m"
    unfolding ancestorPositions_def by blast
  then show ?thesis by blast
qed

lemma ancestorPositions_short: "length lg \<le> 1 \<Longrightarrow> ancestorPositions lg = []"
  by (simp add: ancestorPositions_def)

lemma ancestorCaches_loop_char:
  "ancestorCaches_loop l lg i acc =
     acc @ map (\<lambda>j. mkCache l (hex_EncodeToString (Id (lg ! j))))
             (takeWhile (\<lambda>j. length (Parents (lg ! (j - 1))) = 1) [i..<length lg])"
proof (induction l lg i acc rule: ancestorCaches_loop.induct)
  case (1 l lg i acc)
  show ?case
  proof (cases "i < length lg \<and> length (Parents (lg ! (i - 1))) = 1")
    case True
    then have u: "[i..<length lg] = i # [i + 1..<length lg]" by (simp add: upt_conv_Cons)
    have "ancestorCaches_loop l lg i acc
            = ancestorCaches_loop l lg (i + 1) (acc @ [mkCache l (hex_EncodeToString (Id (lg ! i)))])"
      by (subst ancestorCaches_loop.simps) (use True in simp)
    also note 1 [OF True]
    finally show ?thesis using True by (simp add: u)
  next
    case False
    have tw: "takeWhile (\<lambda>j. length (Parents (lg ! (j - 1))) = 1) [i..<length lg] = []"
    proof (cases "i < length lg")
      case True
      then have "[i..<length lg] = i # [i + 1..<length lg]" by (simp add: upt_conv_Cons)
      with False True show ?thesis by simp
    next
      case False
      then show ?thesis by simp
    qed
    have "ancestorCaches_loop l lg i acc = acc"
      by (subst ancestorCaches_loop.simps) (use False in auto)
    with tw show ?thesis by simp
  qed
qed

lemma probe_simps [simp]:
  "Value (probe ev e) = probeValue ev (Key e)" "Key (probe ev e) = Key e"
  "(probe ev e)\<lparr>Value := x\<rparr> = e\<lparr>Value := x\<rparr>"
  by (simp_all add: probe_def probeValue_def split: getResult.split)

lemma pointers_loop_upt:
  "pointers_loop id0 i (map g [Suc i..<m]) caches =
     caches @ map (\<lambda>j. (g j)\<lparr>Value := id0 @ [of_nat j]\<rparr>)
                (filter (\<lambda>j. \<not> notWorse (Value (g j)) (of_nat j)) [Suc i..<m])"
proof (induction "m - Suc i" arbitrary: i caches)
  case 0
  then show ?case by simp
next
  case (Suc n)
  then have u: "[Suc i..<m] = Suc i # [Suc (Suc i)..<m]" by (simp add: upt_conv_Cons)
  from Suc(2) have "n = m - Suc (Suc i)" by simp
  note IH = Suc(1) [OF this]
  show ?case by (simp add: u Let_def IH)
qed

lemma pointerItem_simps [simp]:
  "Key (pointerItem l lg j) = cacheKey (host l) (project l) (hex_EncodeToString (Id (lg ! j)))"
  "Value (pointerItem l lg j) = Id (lg ! 0) @ [of_nat j]"
  by (simp_all add: pointerItem_def mkCache_def)

lemma writeCache_char:
  assumes "proto_Marshal ev res = Inr m"
  shows "writeCache ev l res =
           (if length (Log res) > 1
            then [MemcacheGet (map (\<lambda>j. Key (pointerItem l (Log res) j)) (ancestorPositions (Log res))),
                  MemcacheSet (directCaches l m res @ pointerWrites ev l (Log res))]
            else [MemcacheSet (directCaches l m res)])"
proof (cases "length (Log res) > 1")
  case False
  with assms show ?thesis by (simp add: writeCache_def Let_def)
next
  case True
  let ?lg = "Log res"
  let ?mk = "\<lambda>j. mkCache l (hex_EncodeToString (Id (?lg ! j)))"
  from ancestorPositions_stop [of ?lg] obtain k where k: "ancestorPositions ?lg = [Suc 0..<k]"
    by auto
  have anc: "ancestorCaches_loop l ?lg (Suc 0) [] = map ?mk [Suc 0..<k]"
    using k by (simp add: ancestorCaches_loop_char ancestorPositions_def)
  have keys: "map Key (ancestorCaches_loop l ?lg (Suc 0) [])
                = map (\<lambda>j. Key (pointerItem l ?lg j)) (ancestorPositions ?lg)"
    by (simp add: anc k mkCache_def)
  have "pointers_loop (Id (?lg ! 0)) 0 (map (probe ev \<circ> ?mk) [Suc 0..<k]) (directCaches l m res)
          = directCaches l m res @ pointerWrites ev l ?lg"
    by (simp only: pointers_loop_upt) (simp add: pointerWrites_def k pointerItem_def mkCache_def)
  then have ptr: "pointers_loop (Id (?lg ! 0)) 0 (map (probe ev) (ancestorCaches_loop l ?lg (Suc 0) []))
                    (directCaches l m res)
                  = directCaches l m res @ pointerWrites ev l ?lg"
    by (simp only: anc map_map)
  have "writeCache ev l res =
          [MemcacheGet (map Key (ancestorCaches_loop l ?lg (Suc 0) [])),
           MemcacheSet (pointers_loop (Id (?lg ! 0)) 0
                          (map (probe ev) (ancestorCaches_loop l ?lg (Suc 0) [])) (directCaches l m res))]"
    using True assms by (simp add: writeCache_def Let_def)
  then show ?thesis using True by (simp only: keys ptr if_True)
qed

lemma writeCache_batch:
  assumes "MemcacheSet batch \<in> set (writeCache ev l res)"
  shows "\<exists>m. proto_Marshal ev res = Inr m
             \<and> batch = directCaches l m res @ pointerWrites ev l (Log res)"
proof (cases "proto_Marshal ev res")
  case (Inl err)
  with assms show ?thesis by (simp add: writeCache_def)
next
  case (Inr m)
  show ?thesis
  proof (cases "length (Log res) > 1")
    case True
    with assms Inr show ?thesis by (simp add: writeCache_char [OF Inr])
  next
    case False
    then have "pointerWrites ev l (Log res) = []"
      by (simp add: pointerWrites_def ancestorPositions_short)
    with False assms Inr show ?thesis by (simp add: writeCache_char [OF Inr])
  qed
qed

lemma writeCache_no_counter: "\<forall>x \<in> set (writeCache ev l res). \<not> isCounterAdd x"
  by (auto simp: writeCache_def Let_def split: sum.splits if_splits)

lemma directCaches_head:
  "\<exists>rest. directCaches l m res = (commitishEntry l)\<lparr>Value := m @ [0]\<rparr> # rest"
  by (simp add: directCaches_def Let_def)

lemma directCaches_values:
  assumes "x \<in> set (directCaches l m res)"
  shows "Value x = m @ [0]"
  using assms by (auto simp: directCaches_def Let_def split: if_splits)

lemma writeCache_last:
  assumes "proto_Marshal ev res = Inr m"
  shows "\<exists>pre rest. writeCache ev l res = pre @ [MemcacheSet ((commitishEntry l)\<lparr>Value := m @ [0]\<rparr> # rest)]"
proof -
  from directCaches_head [of l m res] obtain rest where
    r: "directCaches l m res = (commitishEntry l)\<lparr>Value := m @ [0]\<rparr> # rest" by blast
  show ?thesis
  proof (cases "length (Log res) > 1")
    case True
    then have "writeCache ev l res =
        [MemcacheGet (map (\<lambda>j. Key (pointerItem l (Log res) j)) (ancestorPositions (Log res)))]
          @ [MemcacheSet ((commitishEntry l)\<lparr>Value := m @ [0]\<rparr> # (rest @ pointerWrites ev l (Log res)))]"
      by (simp add: writeCache_char [OF assms] r)
    then show ?thesis by blast
  next
    case False
    then have "writeCache ev l res = [] @ [MemcacheSet ((commitishEntry l)\<lparr>Value := m @ [0]\<rparr> # rest)]"
      by (simp add: writeCache_char [OF assms] r)
    then show ?thesis by blast
  qed
qed

lemma pointerWrites_member:
  assumes "x \<in> set (pointerWrites ev l lg)"
  shows "\<exists>j. x = pointerItem l lg j \<and> j \<in> set (ancestorPositions lg)
             \<and> \<not> notWorse (probeValue ev (Key x)) (of_nat j)"
  using assms by (auto simp: pointerWrites_def)

lemma pointerItem_written_iff:
  assumes "j \<in> set (ancestorPositions lg)"
  shows "pointerItem l lg j \<in> set (pointerWrites ev l lg)
         \<longleftrightarrow> \<not> notWorse (probeValue ev (Key (pointerItem l lg j))) (of_nat j)"
proof
  assume "pointerItem l lg j \<in> set (pointerWrites ev l lg)"
  from pointerWrites_member [OF this] obtain j' where
    j': "pointerItem l lg j = pointerItem l lg j'"
        "\<not> notWorse (probeValue ev (Key (pointerItem l lg j))) (of_nat j')"
    by blast
  from j'(1) have "Value (pointerItem l lg j) = Value (pointerItem l lg j')" by simp
  then have "(of_nat j :: byte) = of_nat j'" by simp
  with j'(2) show "\<not> notWorse (probeValue ev (Key (pointerItem l lg j))) (of_nat j)" by simp
next
  assume "\<not> notWorse (probeValue ev (Key (pointerItem l lg j))) (of_nat j)"
  with assms show "pointerItem l lg j \<in> set (pointerWrites ev l lg)"
    by (simp add: pointerWrites_def)
qed

lemma notWorse_iff:
  "notWorse (probeValue ev k) dist \<longleftrightarrow> (\<exists>v. memcache_Get ev k = Got v \<and> v \<noteq> [] \<and> last v \<le> dist)"
  by (auto simp: notWorse_def probeValue_def last_conv_nth split: getResult.splits)

lemma written_iff_probe:
  assumes "j \<in> set (ancestorPositions lg)"
  shows "pointerItem l lg j \<in> set (pointerWrites ev l lg) \<longleftrightarrow>
           memcache_Get ev (Key (pointerItem l lg j)) = ErrCacheMiss
         \<or> (\<exists>msg. memcache_Get ev (Key (pointerItem l lg j)) = GetError msg)
         \<or> (\<exists>v. memcache_Get ev (Key (pointerItem l lg j)) = Got v \<and> (v = [] \<or> of_nat j < last v))"
proof -
  have "\<not> notWorse (probeValue ev k) dist \<longleftrightarrow>
          memcache_Get ev k = ErrCacheMiss
        \<or> (\<exists>msg. memcache_Get ev k = GetError msg)
        \<or> (\<exists>v. memcache_Get ev k = Got v \<and> (v = [] \<or> dist < last v))" for k dist
    by (cases "memcache_Get ev k") (auto simp: notWorse_iff not_le)
  with pointerItem_written_iff [OF assms, of l ev] show ?thesis by simp
qed

lemma pointerWrites_positions:
  assumes "x \<in> set (pointerWrites ev l lg)"
  shows "\<exists>j. x = pointerItem l lg j \<and> 1 \<le> j \<and> j < length lg
             \<and> (\<forall>i<j. length (Parents (lg ! i)) = 1)"
proof -
  from pointerWrites_member [OF assms] obtain j where
    j: "x = pointerItem l lg j" "j \<in> set (ancestorPositions lg)" by blast
  from ancestorPositions_prefix [OF j(2)] j(1) show ?thesis by blast
qed

lemma pointerWrites_not_direct:
  assumes "x \<in> set (pointerWrites ev l lg)"
    and "memcache_Get ev k = Got v" "v \<noteq> []" "last v = 0"
  shows "Key x \<noteq> k"
proof
  assume "Key x = k"
  from pointerWrites_member [OF assms(1)] obtain j where
    "\<not> notWorse (probeValue ev (Key x)) (of_nat j)" by blast
  moreover have "notWorse (probeValue ev k) (of_nat j)"
    using assms(2,3,4) by (simp add: notWorse_iff)
  ultimately show False using \<open>Key x = k\<close> by simp
qed

lemma pointerWrites_distance:
  assumes "x \<in> set (pointerWrites ev l lg)" and "length lg \<le> 256"
  shows "\<exists>j. Value x = Id (lg ! 0) @ [of_nat j] \<and> 1 \<le> unat (of_nat j :: byte)"
proof -
  from pointerWrites_positions [OF assms(1)] obtain j where
    j: "x = pointerItem l lg j" "1 \<le> j" "j < length lg" by blast
  then have "j < 256" using assms(2) by simp
  then have "unat (of_nat j :: byte) = j" by (rule byte_of_position)
  with j show ?thesis by auto
qed

subsection \<open>call and Log\<close>

text \<open>
  The paths through \<^verbatim>\<open>call\<close>, by the result of the read path.
\<close>

lemma call_init_simps [simp]:
  "host (call_init l) = host l" "project (call_init l) = project l"
  "commitish (call_init l) = commitish l" "min' (call_init l) = min' l"
  "commitishIsHash (call_init l) = gitHash_MatchString (commitish l)"
  "Key (commitishEntry (call_init l)) = cacheKey (host l) (project l) (commitish l)"
  by (simp_all add: call_init_def Let_def mkCache_def)

lemma newLogReq_simps [simp]:
  "host (newLogReq h p c m) = h" "project (newLogReq h p c m) = p"
  "commitish (newLogReq h p c m) = c" "min' (newLogReq h p c m) = m"
  by (simp_all add: newLogReq_def)

lemma counterRef_call_init:
  "counterRef (call_init (newLogReq h p c m)) = (if gitHash_MatchString c then ''PINNED'' else c)"
  by (simp add: counterRef_def)

lemma Log'_call:
  "m \<le> 100 \<Longrightarrow> Log' ev h p c m = call ev (newLogReq h p c (if m \<le> 0 then 50 else m))"
  by (simp add: Log'_def)

lemma call_gitiles_head:
  "\<exists>rest. fst (call_gitiles ev l) = GitilesClient (host l) # rest"
  by (simp add: call_gitiles_def Let_def split: sum.split)

lemma call_gitiles_no_counter: "\<forall>x \<in> set (fst (call_gitiles ev l)). \<not> isCounterAdd x"
  using writeCache_no_counter [of ev l]
  by (simp add: call_gitiles_def Let_def split: sum.split)

lemma call_gitiles_Failed:
  assumes "snd (call_gitiles ev l) = Failed e"
  shows "Client ev (host l) = Inl e \<or>
         (\<exists>g err. Client ev (host l) = Inr g
            \<and> g \<lparr>Project = project l, Treeish = commitish l, PageSize = 100\<rparr> = Inl err
            \<and> e = Annotate err ''gitiles.Log'')"
  using assms by (auto simp: call_gitiles_def Let_def split: sum.splits)

lemma call_hit:
  assumes "info_Namespace ev = None"
    and "readCache ev (call_init l) = Some (tr, Val (cr, cs, True))"
  shows "call ev l = Some (tr @ [CounterAdd cr (host l) (project l) (counterRef (call_init l))], Returned cs)"
  using assms by (simp add: call_def Let_def)

lemma call_fallback:
  assumes "info_Namespace ev = None"
    and "readCache ev (call_init l) = Some (tr, Val (cr, cs, False))"
  shows "call ev l = Some (tr @ fst (call_gitiles ev (call_init l))
                              @ [CounterAdd cr (host l) (project l) (counterRef (call_init l))],
                           snd (call_gitiles ev (call_init l)))"
  using assms by (simp add: call_def Let_def)

lemma call_panic:
  assumes "info_Namespace ev = None"
    and "readCache ev (call_init l) = Some (tr, Panic msg)"
  shows "call ev l = Some (tr @ [CounterAdd [] (host l) (project l) (counterRef (call_init l))], Panicked msg)"
  using assms by (simp add: call_def Let_def)

lemma call_reads_first:
  assumes "info_Namespace ev = None" and "1 \<le> min' l" and "min' l \<le> 100"
  shows "\<exists>gets r rest out. readCache ev (call_init l) = Some (gets, r)
            \<and> call ev l = Some (gets @ rest, out)"
proof -
  have m: "1 \<le> min' (call_init l)" "min' (call_init l) \<le> 100" using assms(2,3) by simp_all
  from readCache_returns [OF m, of ev] obtain gets r where
    g: "readCache ev (call_init l) = Some (gets, r)" by blast
  show ?thesis
  proof (cases r)
    case (Panic msg)
    with g have "readCache ev (call_init l) = Some (gets, Panic msg)" by simp
    from call_panic [OF assms(1) this] g show ?thesis by blast
  next
    case (Val t)
    obtain cr cs ok where t: "t = (cr, cs, ok)" by (cases t)
    show ?thesis
    proof (cases ok)
      case True
      with g Val t have "readCache ev (call_init l) = Some (gets, Val (cr, cs, True))" by simp
      from call_hit [OF assms(1) this] g show ?thesis by blast
    next
      case False
      with g Val t have "readCache ev (call_init l) = Some (gets, Val (cr, cs, False))" by simp
      from call_fallback [OF assms(1) this] g show ?thesis by blast
    qed
  qed
qed

lemma call_namespace:
  assumes "info_Namespace ev = Some err"
  shows "call ev l = Some ([], Failed (Annotate err ''could not set namespace''))"
  using assms by (simp add: call_def)

lemma call_Failed:
  assumes "call ev l = Some (tr, Failed e)"
  shows "(\<exists>err. info_Namespace ev = Some err \<and> tr = [] \<and> e = Annotate err ''could not set namespace'')
         \<or> (info_Namespace ev = None
             \<and> (Client ev (host l) = Inl e
                 \<or> (\<exists>g err. Client ev (host l) = Inr g
                       \<and> g \<lparr>Project = project l, Treeish = commitish l, PageSize = 100\<rparr> = Inl err
                       \<and> e = Annotate err ''gitiles.Log'')))"
proof (cases "info_Namespace ev")
  case (Some err)
  with assms show ?thesis by (simp add: call_def)
next
  case None
  show ?thesis
  proof (cases "readCache ev (call_init l)")
    case rn: None
    with assms None show ?thesis by (simp add: call_def Let_def)
  next
    case (Some y)
    obtain tr0 ro where y: "y = (tr0, ro)" by (cases y)
    show ?thesis
    proof (cases ro)
      case (Panic msg)
      with assms None Some y show ?thesis by (simp add: call_def Let_def)
    next
      case (Val v)
      obtain cr cs ok where v: "v = (cr, cs, ok)" by (cases v)
      show ?thesis
      proof (cases ok)
        case True
        with assms None Some y Val v show ?thesis by (simp add: call_def Let_def)
      next
        case False
        with assms None Some y Val v
        have "snd (call_gitiles ev (call_init l)) = Failed e" by (simp add: call_def Let_def)
        from call_gitiles_Failed [OF this] None show ?thesis by simp
      qed
    qed
  qed
qed

lemma Log'_counter:
  assumes "m \<le> 100" and "info_Namespace ev = None"
    and "readCache ev (call_init (newLogReq h p c (if m \<le> 0 then 50 else m))) = Some (tr0, Val (cr, cs, ok))"
  shows "\<exists>tr r. Log' ev h p c m = Some (tr, r)
           \<and> filter isCounterAdd tr = [CounterAdd cr h p (if gitHash_MatchString c then ''PINNED'' else c)]
           \<and> last tr = CounterAdd cr h p (if gitHash_MatchString c then ''PINNED'' else c)"
proof -
  let ?rq = "newLogReq h p c (if m \<le> 0 then 50 else m)"
  let ?counter = "CounterAdd cr h p (if gitHash_MatchString c then ''PINNED'' else c)"
  note L = Log'_call [OF assms(1), of ev h p c]
  have n: "filter isCounterAdd tr0 = []" using assms(3) by (rule readCache_no_counter)
  show ?thesis
  proof (cases ok)
    case True
    with call_hit [OF assms(2), of ?rq tr0 cr cs] assms(3) L
    have "Log' ev h p c m = Some (tr0 @ [?counter], Returned cs)"
      by (simp add: counterRef_call_init)
    moreover have "filter isCounterAdd (tr0 @ [?counter]) = [?counter]" using n by simp
    moreover have "last (tr0 @ [?counter]) = ?counter" by simp
    ultimately show ?thesis by blast
  next
    case False
    let ?g = "call_gitiles ev (call_init ?rq)"
    from False call_fallback [OF assms(2), of ?rq tr0 cr cs] assms(3) L
    have "Log' ev h p c m = Some (tr0 @ fst ?g @ [?counter], snd ?g)"
      by (simp add: counterRef_call_init)
    moreover have "filter isCounterAdd (fst ?g) = []"
      using call_gitiles_no_counter [of ev "call_init ?rq"] by (auto simp: filter_empty_conv)
    then have "filter isCounterAdd (tr0 @ fst ?g @ [?counter]) = [?counter]" using n by simp
    moreover have "last (tr0 @ fst ?g @ [?counter]) = ?counter" by simp
    ultimately show ?thesis by blast
  qed
qed

subsection \<open>The concrete environments\<close>

text \<open>
  Lookups and evaluations in the environments of the examples.
\<close>

lemma wire_Marshal_bytes: "wire_Marshal res = Inr (wireBytes res)"
  by (simp add: wireBytes_def wire_Marshal_def)

lemma wire_roundtrip_examples:
  "wire_Unmarshal (wireBytes (singleLog)) = Inr (singleLog)"
  "wire_Unmarshal (wireBytes (linearLog 4)) = Inr (linearLog 4)"
  by code_simp+

lemma example_unmarshal [simp]:
  "proto_Unmarshal (envOf kvs res) = wire_Unmarshal" "proto_Marshal (envOf kvs res) = wire_Marshal"
  "info_Namespace (envOf kvs res) = None"
  by (simp_all add: envOf_def)

lemma example_marshal: "proto_Marshal (envOf kvs r) res = Inr (wireBytes res)"
  by (simp add: wire_Marshal_bytes)

lemma envOf_gitiles: "snd (call_gitiles (envOf kvs res) l) = Returned (Log res)"
  by (simp add: call_gitiles_def envOf_def)

lemma writeCache_example:
  assumes "length (Log res) > 1"
  shows "writeCache (envOf kvs r) l res =
           [MemcacheGet (map (\<lambda>j. Key (pointerItem l (Log res) j)) (ancestorPositions (Log res))),
            MemcacheSet (directCaches l (wireBytes res) res @ pointerWrites (envOf kvs r) l (Log res))]"
  using assms by (simp add: writeCache_char [OF example_marshal])

lemma main_not_hash: "\<not> gitHash_MatchString ''refs/heads/main''"
  by (simp add: gitHash_MatchString_def)

lemma gitHash_hexOf: "gitHash_MatchString (hexOf 5)" "gitHash_MatchString (hexOf 2)"
  by code_simp+

lemma request_key:
  "Key (commitishEntry (call_init (newLogReq ''host'' ''proj'' (hexOf n) m))) = keyOf n"
  by (simp add: keyOf_def)

lemma evChain_request:
  "Key (commitishEntry (call_init (newLogReq ''host'' ''proj'' (hexOf 2) m))) = keyOf 2"
  by (simp add: keyOf_def)

lemma main_request_key:
  "Key (commitishEntry (call_init (newLogReq ''host'' ''proj'' ''refs/heads/main'' m)))
     = cacheKey ''host'' ''proj'' ''refs/heads/main''"
  by simp

lemma mainReq_simps [simp]: "host mainReq = ''host''" "project mainReq = ''proj''"
  "commitish mainReq = ''refs/heads/main''" "min' mainReq = 50"
  "commitishIsHash mainReq = False"
  "Key (commitishEntry mainReq) = cacheKey ''host'' ''proj'' ''refs/heads/main''"
  by (simp_all add: mainReq_def main_not_hash)

lemma example_mkCache_key:
  "Key (mkCache (call_init (newLogReq ''host'' ''proj'' c m)) (hex_EncodeToString (idOf n))) = keyOf n"
  by (simp add: mkCache_def keyOf_def hexOf_def)

lemma linearLog_nth: "j < n \<Longrightarrow> Log (linearLog n) ! j = linearCommit j"
  by (simp add: linearLog_def)

lemma linearLog_key:
  "j < n \<Longrightarrow> Key (pointerItem mainReq (Log (linearLog n)) j) = keyOf j"
  by (simp add: linearLog_nth keyOf_def hexOf_def linearCommit_def)

lemma linearLog4_positions:
  "ancestorPositions (Log (linearLog 4)) = [1, 2, 3]" "length (Log (linearLog 4)) = 4"
  by code_simp+

lemma linearLog4_keys:
  "Key (pointerItem mainReq (Log (linearLog 4)) 1) = keyOf 1"
  "Key (pointerItem mainReq (Log (linearLog 4)) 2) = keyOf 2"
  by (rule linearLog_key, simp)+

lemma linearLog3_positions:
  "ancestorPositions (Log (linearLog 3)) = [1, 2]" "length (Log (linearLog 3)) = 3"
  by code_simp+

lemma twoLog_positions: "ancestorPositions (Log twoLog) = [1]"
  by code_simp

lemma twoLog_facts:
  "length (Log twoLog) = 2"
  "Key (pointerItem mainReq (Log twoLog) 1) = keyOf 1"
  "Value (pointerItem mainReq (Log twoLog) 1) = idOf 0 @ [1]"
  by (simp_all add: twoLog_def keyOf_def hexOf_def linearCommit_def)

lemma mergeLog_facts:
  "ancestorPositions (Log mergeLog) = [1]" "length (Log mergeLog) = 4"
  "length (Parents (Log mergeLog ! 0)) = 1" "length (Parents (Log mergeLog ! 1)) = 2"
  by code_simp+

lemma evChain_gets:
  "memcache_Get evChain (keyOf 2) = Got (idOf 0 @ [2])"
  "memcache_Get evChain (keyOf 0) = Got (wireBytes (linearLog 4) @ [0])"
  by code_simp+

lemma evChain_miss: "memcache_Get evChain (keyOf 1) = ErrCacheMiss"
  by code_simp

lemma evChain_chain:
  "pointer_chain evChain ''host'' ''proj'' (cacheKey ''host'' ''proj'' (hexOf 2)) 2 (keyOf 0)"
proof -
  have "pointer_chain evChain ''host'' ''proj'' (keyOf 2) (unat (2 :: byte) + 0) (keyOf 0)"
  proof (rule pointer_chain.hop)
    show "memcache_Get evChain (keyOf 2) = Got (idOf 0 @ [2])" by (rule evChain_gets)
    show "(2 :: byte) \<noteq> 0" "(2 :: byte) < 100" by simp_all
    show "pointer_chain evChain ''host'' ''proj''
            (cacheKey ''host'' ''proj'' (hex_EncodeToString (idOf 0))) 0 (keyOf 0)"
      unfolding keyOf_def hexOf_def by (rule pointer_chain.here)
  qed
  then show ?thesis by (simp add: keyOf_def)
qed

lemma evChain_read_default:
  "readCache evChain (call_init (newLogReq ''host'' ''proj'' (hexOf 2) 50))
     = Some ([MemcacheGet [keyOf 2], MemcacheGet [keyOf 0]],
             Val (cacheHit, [linearCommit 2, linearCommit 3], True))"
proof -
  let ?l = "call_init (newLogReq ''host'' ''proj'' (hexOf 2) 50)"
  have k1: "Key (commitishEntry ?l) = keyOf 2" by (rule request_key)
  have k2: "Key (mkCache ?l (hexOf 0)) = keyOf 0" by (simp only: hexOf_def example_mkCache_key)
  have un: "proto_Unmarshal evChain (wireBytes (linearLog 4)) = Inr (linearLog 4)"
    by (simp add: evChain_def wire_roundtrip_examples)
  have dr: "drop 2 (Log (linearLog 4)) = [linearCommit 2, linearCommit 3]" by code_simp
  have len: "length (Log (linearLog 4)) = 4" by code_simp
  have g1: "memcache_Get evChain (Key (commitishEntry ?l)) = Got (idOf 0 @ [2])"
    by (simp only: k1 evChain_gets)
  have s1: "readCache_step evChain ?l 50 (commitishEntry ?l) 0 = Inl (mkCache ?l (hexOf 0), 2)"
    using readCache_step_pointer [OF g1, of ?l 50 0] by (simp add: hexOf_def)
  have g2: "memcache_Get evChain (Key (mkCache ?l (hexOf 0))) = Got (wireBytes (linearLog 4) @ [0])"
    by (simp only: k2 evChain_gets)
  have s2: "readCache_step evChain ?l 50 (mkCache ?l (hexOf 0)) 2
              = Inr (Val (cacheHit, [linearCommit 2, linearCommit 3], True))"
    using readCache_step_direct [OF g2 un, of ?l 50 2] by (simp add: len dr)
  have "readCache evChain ?l = readCache_loop evChain ?l 50 (commitishEntry ?l) 0 []"
    by (simp add: readCache_def)
  also have "\<dots> = readCache_loop evChain ?l 50 (mkCache ?l (hexOf 0)) 2
                      ([] @ [MemcacheGet [Key (commitishEntry ?l)]])"
    by (rule readCache_loop_Inl [OF s1])
  also have "\<dots> = Some (([] @ [MemcacheGet [Key (commitishEntry ?l)]])
                            @ [MemcacheGet [Key (mkCache ?l (hexOf 0))]],
                          Val (cacheHit, [linearCommit 2, linearCommit 3], True))"
    by (rule readCache_loop_Inr [OF s2])
  finally show ?thesis
    by (simp only: k1 k2 append_Nil append_Cons)
qed

lemma evChain_read_full:
  "readCache evChain (call_init (newLogReq ''host'' ''proj'' (hexOf 2) 100))
     = Some ([MemcacheGet [keyOf 2]], Val (cacheMiss, [], False))"
proof -
  let ?l = "call_init (newLogReq ''host'' ''proj'' (hexOf 2) 100)"
  have k1: "Key (commitishEntry ?l) = keyOf 2" by (rule request_key)
  have g1: "memcache_Get evChain (Key (commitishEntry ?l)) = Got (idOf 0 @ [2])"
    by (simp only: k1 evChain_gets)
  have s1: "readCache_step evChain ?l 0 (commitishEntry ?l) 0 = Inr (Val (cacheMiss, [], False))"
    using readCache_step_pointer [OF g1, of ?l 0 0] by simp
  have "readCache evChain ?l = readCache_loop evChain ?l 0 (commitishEntry ?l) 0 []"
    by (simp add: readCache_def)
  also have "\<dots> = Some ([] @ [MemcacheGet [Key (commitishEntry ?l)]], Val (cacheMiss, [], False))"
    by (rule readCache_loop_Inr [OF s1])
  finally show ?thesis
    by (simp only: k1 append_Nil append_Cons)
qed

lemma evShort_gets:
  "memcache_Get evShort (keyOf 5) = Got (idOf 0 @ [5])"
  "memcache_Get evShort (keyOf 0) = Got (wireBytes (singleLog) @ [0])"
  by code_simp+

lemma evShort_steps:
  "readCache_step evShort (call_init (newLogReq ''host'' ''proj'' (hexOf 5) 50)) 50
      (commitishEntry (call_init (newLogReq ''host'' ''proj'' (hexOf 5) 50))) 0
     = Inl (mkCache (call_init (newLogReq ''host'' ''proj'' (hexOf 5) 50)) (hexOf 0), 5)"
  "readCache_step evShort (call_init (newLogReq ''host'' ''proj'' (hexOf 5) 50)) 50
      (mkCache (call_init (newLogReq ''host'' ''proj'' (hexOf 5) 50)) (hexOf 0)) 5
     = Inr (Panic ''slice bounds out of range'')"
proof -
  let ?l = "call_init (newLogReq ''host'' ''proj'' (hexOf 5) 50)"
  have un: "proto_Unmarshal evShort (wireBytes singleLog) = Inr singleLog"
    by (simp only: evShort_def example_unmarshal wire_roundtrip_examples)
  have len: "length (Log singleLog) = 1" by code_simp
  have g1: "memcache_Get evShort (Key (commitishEntry ?l)) = Got (idOf 0 @ [5])"
    by (simp only: request_key evShort_gets)
  show "readCache_step evShort ?l 50 (commitishEntry ?l) 0 = Inl (mkCache ?l (hexOf 0), 5)"
    using readCache_step_pointer [OF g1, of ?l 50 0] by (simp add: hexOf_def)
  have g2: "memcache_Get evShort (Key (mkCache ?l (hexOf 0))) = Got (wireBytes singleLog @ [0])"
    by (simp only: hexOf_def example_mkCache_key evShort_gets)
  show "readCache_step evShort ?l 50 (mkCache ?l (hexOf 0)) 5 = Inr (Panic ''slice bounds out of range'')"
    using readCache_step_direct [OF g2 un, of ?l 50 5] by (simp add: len)
qed

lemma evShort_read:
  "readCache evShort (call_init (newLogReq ''host'' ''proj'' (hexOf 5) 50))
     = Some ([MemcacheGet [keyOf 5], MemcacheGet [keyOf 0]], Panic ''slice bounds out of range'')"
proof -
  let ?l = "call_init (newLogReq ''host'' ''proj'' (hexOf 5) 50)"
  have k1: "Key (commitishEntry ?l) = keyOf 5" by (rule request_key)
  have k2: "Key (mkCache ?l (hexOf 0)) = keyOf 0" by (simp only: hexOf_def example_mkCache_key)
  have "readCache evShort ?l = readCache_loop evShort ?l 50 (commitishEntry ?l) 0 []"
    by (simp add: readCache_def)
  also have "\<dots> = readCache_loop evShort ?l 50 (mkCache ?l (hexOf 0)) 5
                      ([] @ [MemcacheGet [Key (commitishEntry ?l)]])"
    by (rule readCache_loop_Inl [OF evShort_steps(1)])
  also have "\<dots> = Some (([] @ [MemcacheGet [Key (commitishEntry ?l)]])
                            @ [MemcacheGet [Key (mkCache ?l (hexOf 0))]],
                          Panic ''slice bounds out of range'')"
    by (rule readCache_loop_Inr [OF evShort_steps(2)])
  finally show ?thesis
    by (simp only: k1 k2 append_Nil append_Cons)
qed

lemma evBroken_get:
  "memcache_Get evBroken (cacheKey ''host'' ''proj'' ''refs/heads/main'') = GetError ''memcache: server error''"
  by (simp add: evBroken_def envOf_def cacheOf_def)

lemma evBroken_gitiles: "snd (call_gitiles evBroken l) = Returned (Log (linearLog 4))"
  by (simp add: evBroken_def envOf_gitiles)

lemma evBroken_read:
  "readCache evBroken (call_init (newLogReq ''host'' ''proj'' ''refs/heads/main'' 50))
     = Some ([MemcacheGet [cacheKey ''host'' ''proj'' ''refs/heads/main'']], Val (cacheFailure, [], False))"
proof -
  let ?l = "call_init (newLogReq ''host'' ''proj'' ''refs/heads/main'' 50)"
  have f: "cacheLayerFailure evBroken (Key (commitishEntry ?l))"
    by (simp add: cacheLayerFailure_def evBroken_get)
  have "readCache_step evBroken ?l (word_of_int (100 - min' ?l)) (commitishEntry ?l) 0
          = Inr (Val (cacheFailure, [], False))"
    using readCache_step_failure [OF f, of ?l "word_of_int (100 - min' ?l)" 0]
    by (simp add: evBroken_get)
  from readCache_loop_Inr [OF this, of "[]"] show ?thesis by (simp add: readCache_def)
qed

lemma evRemoteDown_get: "memcache_Get evRemoteDown k = ErrCacheMiss"
  by (simp add: evRemoteDown_def envOf_def cacheOf_def)

lemma evRemoteDown_gitiles:
  "snd (call_gitiles evRemoteDown l) = Failed (Err ''no client factory'')"
  by (simp add: call_gitiles_def evRemoteDown_def)

lemma evEmpty_get: "memcache_Get evEmpty k = ErrCacheMiss"
  by (simp add: evEmpty_def envOf_def cacheOf_def)

lemma evEmpty_mergeLog_writes:
  "pointerWrites evEmpty mainReq (Log mergeLog) = [pointerItem mainReq (Log mergeLog) 1]"
proof -
  have "probeValue evEmpty k = []" for k by (simp add: probeValue_def evEmpty_get)
  then show ?thesis by (simp add: pointerWrites_def mergeLog_facts notWorse_def)
qed

lemma evEmptyValue_get: "memcache_Get evEmptyValue (keyOf 1) = Got []"
  by (simp add: evEmptyValue_def envOf_def cacheOf_def)

lemma evEmptyValue_writes:
  "pointerWrites evEmptyValue mainReq (Log twoLog) = [pointerItem mainReq (Log twoLog) 1]"
proof -
  have pv: "probeValue evEmptyValue (keyOf 1) = []"
    by (simp only: probeValue_def evEmptyValue_get getResult.case)
  have "\<not> notWorse (probeValue evEmptyValue (Key (pointerItem mainReq (Log twoLog) 1))) (of_nat 1)"
    by (simp only: twoLog_facts pv) (simp add: notWorse_def)
  then show ?thesis by (simp add: pointerWrites_def twoLog_positions)
qed

lemma evDirect_gets:
  "memcache_Get evDirect (keyOf 1) = Got (wireBytes (linearLog 3) @ [0])"
  "memcache_Get evDirect (keyOf 2) = ErrCacheMiss"
  by code_simp+

lemma evDirect_writes:
  "pointerWrites evDirect mainReq (Log (linearLog 3)) = [pointerItem mainReq (Log (linearLog 3)) 2]"
proof -
  let ?lg = "Log (linearLog 3)"
  have k: "Key (pointerItem mainReq ?lg 1) = keyOf 1" "Key (pointerItem mainReq ?lg 2) = keyOf 2"
    by (rule linearLog_key, simp)+
  have p1: "probeValue evDirect (keyOf 1) = wireBytes (linearLog 3) @ [0]"
    and p2: "probeValue evDirect (keyOf 2) = []"
    by (simp_all only: probeValue_def evDirect_gets getResult.case)
  have n1: "notWorse (probeValue evDirect (Key (pointerItem mainReq ?lg 1))) (of_nat 1)"
    by (simp only: k p1) (simp add: notWorse_def)
  have n2: "\<not> notWorse (probeValue evDirect (Key (pointerItem mainReq ?lg 2))) (of_nat 2)"
    by (simp only: k p2) (simp add: notWorse_def)
  show ?thesis
    by (simp only: pointerWrites_def linearLog3_positions filter.simps n1 n2
          not_True_eq_False not_False_eq_True if_True if_False list.map)
qed

section \<open>The claims\<close>

subsection \<open>C9: the bounds on min\<close>

text \<open>
  Claim C9. For every call \<^verbatim>\<open>Log(host, project, commitish, min)\<close>: when \<open>min \<le> 0\<close> the
  request proceeds with \<open>min = 50\<close>; when \<open>min > 100\<close> the call panics before any cache or
  remote access (the trace of events is empty, and the outcome is a panic, not a returned
  error); otherwise the given \<open>min\<close> is used unchanged. The request is written out field
  by field: it is the request of the given host, project and commitish whose \<open>min\<close> is
  50, respectively the given value, and \<^verbatim>\<open>Log\<close> is \<^verbatim>\<open>call\<close> on that request. What the
  \<open>min\<close> of the request decides is the budget of the pointer chase: with the namespace
  set, the events of \<^verbatim>\<open>Log\<close> start with those of the read loop run under the budget
  \<open>100 - 50\<close>, respectively \<open>100 - min\<close>, from the key of the commitish.
\<close>

theorem Log_min_bounds:
  "(m \<le> 0 \<longrightarrow>
      Log' ev h p c m
        = call ev \<lparr>host = h, project = p, commitish = c, min' = 50,
                   commitishIsHash = gitHash_MatchString c,
                   commitishEntry = \<lparr>Key = [], Value = [], Expiration = 0\<rparr>\<rparr>)
   \<and> (100 < m \<longrightarrow> Log' ev h p c m = Some ([], Panicked ''min cannot be > 100''))
   \<and> (0 < m \<and> m \<le> 100 \<longrightarrow>
      Log' ev h p c m
        = call ev \<lparr>host = h, project = p, commitish = c, min' = m,
                   commitishIsHash = gitHash_MatchString c,
                   commitishEntry = \<lparr>Key = [], Value = [], Expiration = 0\<rparr>\<rparr>)
   \<and> (m \<le> 100 \<and> info_Namespace ev = None \<longrightarrow>
      (\<exists>gets r rest out.
          readCache_loop ev
            (call_init \<lparr>host = h, project = p, commitish = c, min' = (if m \<le> 0 then 50 else m),
                        commitishIsHash = gitHash_MatchString c,
                        commitishEntry = \<lparr>Key = [], Value = [], Expiration = 0\<rparr>\<rparr>)
            (word_of_int (100 - (if m \<le> 0 then 50 else m)))
            \<lparr>Key = cacheKey h p c, Value = [],
             Expiration = (if gitHash_MatchString c then 12 * 3600 else 30)\<rparr> 0 []
            = Some (gets, r)
          \<and> Log' ev h p c m = Some (gets @ rest, out)))"
proof (intro conjI impI)
  assume "m \<le> 0"
  then show "Log' ev h p c m
        = call ev \<lparr>host = h, project = p, commitish = c, min' = 50,
                   commitishIsHash = gitHash_MatchString c,
                   commitishEntry = \<lparr>Key = [], Value = [], Expiration = 0\<rparr>\<rparr>"
    by (simp add: Log'_def newLogReq_def)
next
  assume "100 < m"
  then show "Log' ev h p c m = Some ([], Panicked ''min cannot be > 100'')"
    by (simp add: Log'_def)
next
  assume "0 < m \<and> m \<le> 100"
  then show "Log' ev h p c m
        = call ev \<lparr>host = h, project = p, commitish = c, min' = m,
                   commitishIsHash = gitHash_MatchString c,
                   commitishEntry = \<lparr>Key = [], Value = [], Expiration = 0\<rparr>\<rparr>"
    by (simp add: Log'_def newLogReq_def)
next
  assume a: "m \<le> 100 \<and> info_Namespace ev = None"
  let ?m = "if m \<le> 0 then 50 else m"
  let ?rq = "newLogReq h p c ?m"
  have b: "1 \<le> min' ?rq" "min' ?rq \<le> 100" using a by simp_all
  from call_reads_first [OF conjunct2 [OF a] b] obtain gets r rest out where
    g: "readCache ev (call_init ?rq) = Some (gets, r)" "call ev ?rq = Some (gets @ rest, out)"
    by blast
  have e: "commitishEntry (call_init ?rq)
             = \<lparr>Key = cacheKey h p c, Value = [],
                Expiration = (if gitHash_MatchString c then 12 * 3600 else 30)\<rparr>"
    by (simp add: call_init_def newLogReq_def mkCache_def Let_def)
  have "readCache_loop ev (call_init ?rq) (word_of_int (100 - ?m))
          \<lparr>Key = cacheKey h p c, Value = [],
           Expiration = (if gitHash_MatchString c then 12 * 3600 else 30)\<rparr> 0 [] = Some (gets, r)"
    using g(1) unfolding readCache_def e by simp
  moreover have "Log' ev h p c m = Some (gets @ rest, out)"
    using g(2) Log'_call [of m ev h p c] a by simp
  ultimately show "\<exists>gets r rest out.
          readCache_loop ev
            (call_init \<lparr>host = h, project = p, commitish = c, min' = (if m \<le> 0 then 50 else m),
                        commitishIsHash = gitHash_MatchString c,
                        commitishEntry = \<lparr>Key = [], Value = [], Expiration = 0\<rparr>\<rparr>)
            (word_of_int (100 - (if m \<le> 0 then 50 else m)))
            \<lparr>Key = cacheKey h p c, Value = [],
             Expiration = (if gitHash_MatchString c then 12 * 3600 else 30)\<rparr> 0 []
            = Some (gets, r)
          \<and> Log' ev h p c m = Some (gets @ rest, out)"
    unfolding newLogReq_def by blast
qed

theorem Log_min_bounds_witness:
  "Log' evChain ''host'' ''proj'' (hexOf 2) 0
     = call evChain \<lparr>host = ''host'', project = ''proj'', commitish = hexOf 2, min' = 50,
                      commitishIsHash = gitHash_MatchString (hexOf 2),
                      commitishEntry = \<lparr>Key = [], Value = [], Expiration = 0\<rparr>\<rparr>
   \<and> (\<exists>rest out.
          readCache_loop evChain (call_init \<lparr>host = ''host'', project = ''proj'', commitish = hexOf 2, min' = 50,
                          commitishIsHash = gitHash_MatchString (hexOf 2),
                          commitishEntry = \<lparr>Key = [], Value = [], Expiration = 0\<rparr>\<rparr>)
              50 \<lparr>Key = keyOf 2, Value = [], Expiration = 12 * 3600\<rparr> 0 []
            = Some ([MemcacheGet [keyOf 2], MemcacheGet [keyOf 0]],
                    Val (cacheHit, [linearCommit 2, linearCommit 3], True))
          \<and> Log' evChain ''host'' ''proj'' (hexOf 2) 0
              = Some ([MemcacheGet [keyOf 2], MemcacheGet [keyOf 0]] @ rest, out))
   \<and> Log' evChain ''host'' ''proj'' (hexOf 2) 101
       = Some ([], Panicked ''min cannot be > 100'')
   \<and> Log' evChain ''host'' ''proj'' (hexOf 2) 100
       = call evChain \<lparr>host = ''host'', project = ''proj'', commitish = hexOf 2, min' = 100,
                        commitishIsHash = gitHash_MatchString (hexOf 2),
                        commitishEntry = \<lparr>Key = [], Value = [], Expiration = 0\<rparr>\<rparr>
   \<and> (\<exists>rest out.
          readCache_loop evChain (call_init \<lparr>host = ''host'', project = ''proj'', commitish = hexOf 2, min' = 100,
                          commitishIsHash = gitHash_MatchString (hexOf 2),
                          commitishEntry = \<lparr>Key = [], Value = [], Expiration = 0\<rparr>\<rparr>)
              0 \<lparr>Key = keyOf 2, Value = [], Expiration = 12 * 3600\<rparr> 0 []
            = Some ([MemcacheGet [keyOf 2]], Val (cacheMiss, [], False))
          \<and> Log' evChain ''host'' ''proj'' (hexOf 2) 100
              = Some ([MemcacheGet [keyOf 2]] @ rest, out))"
proof -
  have ns: "info_Namespace evChain = None" by (simp add: evChain_def envOf_def)
  have k: "cacheKey ''host'' ''proj'' (hexOf 2) = keyOf 2" by (simp add: keyOf_def)
  have e: "commitishEntry (call_init (newLogReq ''host'' ''proj'' (hexOf 2) m))
             = \<lparr>Key = keyOf 2, Value = [], Expiration = 12 * 3600\<rparr>" for m
    by (simp add: call_init_def newLogReq_def mkCache_def Let_def gitHash_hexOf keyOf_def)
  have r50: "readCache_loop evChain (call_init \<lparr>host = ''host'', project = ''proj'', commitish = hexOf 2, min' = 50,
                          commitishIsHash = gitHash_MatchString (hexOf 2),
                          commitishEntry = \<lparr>Key = [], Value = [], Expiration = 0\<rparr>\<rparr>)
              50 \<lparr>Key = keyOf 2, Value = [], Expiration = 12 * 3600\<rparr> 0 []
            = Some ([MemcacheGet [keyOf 2], MemcacheGet [keyOf 0]],
                    Val (cacheHit, [linearCommit 2, linearCommit 3], True))"
    using evChain_read_default unfolding readCache_def e unfolding newLogReq_def by simp
  have r100: "readCache_loop evChain (call_init \<lparr>host = ''host'', project = ''proj'', commitish = hexOf 2, min' = 100,
                          commitishIsHash = gitHash_MatchString (hexOf 2),
                          commitishEntry = \<lparr>Key = [], Value = [], Expiration = 0\<rparr>\<rparr>)
              0 \<lparr>Key = keyOf 2, Value = [], Expiration = 12 * 3600\<rparr> 0 []
            = Some ([MemcacheGet [keyOf 2]], Val (cacheMiss, [], False))"
    using evChain_read_full unfolding readCache_def e unfolding newLogReq_def by simp
  note lo = Log_min_bounds [of 0 evChain "''host''" "''proj''" "hexOf 2"]
  note over = Log_min_bounds [of 101 evChain "''host''" "''proj''" "hexOf 2"]
  note hi = Log_min_bounds [of 100 evChain "''host''" "''proj''" "hexOf 2"]
  have a: "Log' evChain ''host'' ''proj'' (hexOf 2) 0
     = call evChain \<lparr>host = ''host'', project = ''proj'', commitish = hexOf 2, min' = 50,
                      commitishIsHash = gitHash_MatchString (hexOf 2),
                      commitishEntry = \<lparr>Key = [], Value = [], Expiration = 0\<rparr>\<rparr>"
    using lo by simp
  from lo [THEN conjunct2, THEN conjunct2, THEN conjunct2] ns
  obtain gets r rest out where
    x: "readCache_loop evChain (call_init \<lparr>host = ''host'', project = ''proj'', commitish = hexOf 2, min' = 50,
                          commitishIsHash = gitHash_MatchString (hexOf 2),
                          commitishEntry = \<lparr>Key = [], Value = [], Expiration = 0\<rparr>\<rparr>)
              50 \<lparr>Key = keyOf 2, Value = [], Expiration = 12 * 3600\<rparr> 0 [] = Some (gets, r)"
       "Log' evChain ''host'' ''proj'' (hexOf 2) 0 = Some (gets @ rest, out)"
    by (auto simp: k gitHash_hexOf)
  from x(1) r50 have "gets = [MemcacheGet [keyOf 2], MemcacheGet [keyOf 0]]" by simp
  with x(2) have b: "\<exists>rest out. Log' evChain ''host'' ''proj'' (hexOf 2) 0
              = Some ([MemcacheGet [keyOf 2], MemcacheGet [keyOf 0]] @ rest, out)"
    by blast
  have c: "Log' evChain ''host'' ''proj'' (hexOf 2) 101 = Some ([], Panicked ''min cannot be > 100'')"
    using over by simp
  have d: "Log' evChain ''host'' ''proj'' (hexOf 2) 100
       = call evChain \<lparr>host = ''host'', project = ''proj'', commitish = hexOf 2, min' = 100,
                        commitishIsHash = gitHash_MatchString (hexOf 2),
                        commitishEntry = \<lparr>Key = [], Value = [], Expiration = 0\<rparr>\<rparr>"
    using hi by simp
  from hi [THEN conjunct2, THEN conjunct2, THEN conjunct2] ns
  obtain gets' r' rest' out' where
    y: "readCache_loop evChain (call_init \<lparr>host = ''host'', project = ''proj'', commitish = hexOf 2, min' = 100,
                          commitishIsHash = gitHash_MatchString (hexOf 2),
                          commitishEntry = \<lparr>Key = [], Value = [], Expiration = 0\<rparr>\<rparr>)
              0 \<lparr>Key = keyOf 2, Value = [], Expiration = 12 * 3600\<rparr> 0 [] = Some (gets', r')"
       "Log' evChain ''host'' ''proj'' (hexOf 2) 100 = Some (gets' @ rest', out')"
    by (auto simp: k gitHash_hexOf)
  from y(1) r100 have "gets' = [MemcacheGet [keyOf 2]]" by simp
  with y(2) have f: "\<exists>rest out. Log' evChain ''host'' ''proj'' (hexOf 2) 100
              = Some ([MemcacheGet [keyOf 2]] @ rest, out)"
    by blast
  from a b c d f r50 r100 show ?thesis by blast
qed

subsection \<open>C7: the end of the pointer chase\<close>

text \<open>
  Claim C7. For every cache state and every \<open>min\<close> in 1..100, the loop of
  \<^verbatim>\<open>readCache\<close> terminates, after at most \<open>100 - min\<close> iterations that follow a pointer,
  by returning a hit or by falling back to the fetch. The code does not do so in
  \<open>evShort\<close> with \<open>min = 50\<close>: the loop follows one pointer, of distance 5, reaches
  the direct entry of one commit and ends in the panic of the slice expression
  \<^verbatim>\<open>decoded.Log[dist:]\<close> (line 192). \<^verbatim>\<open>readCache\<close> returns neither a hit nor one of the
  outcomes that fall back, and \<^verbatim>\<open>call\<close> neither returns commits nor goes on to the
  Gitiles client: its events are the two reads and the counter, with the empty result.
\<close>

theorem pointer_chase_slice_panic:
  "1 \<le> min' (newLogReq ''host'' ''proj'' (hexOf 5) 50) \<and> min' (newLogReq ''host'' ''proj'' (hexOf 5) 50) \<le> 100
   \<and> readCache_step evShort (call_init (newLogReq ''host'' ''proj'' (hexOf 5) 50)) 50 (commitishEntry (call_init (newLogReq ''host'' ''proj'' (hexOf 5) 50))) 0
       = Inl (mkCache (call_init (newLogReq ''host'' ''proj'' (hexOf 5) 50)) (hexOf 0), 5)
   \<and> readCache_step evShort (call_init (newLogReq ''host'' ''proj'' (hexOf 5) 50)) 50 (mkCache (call_init (newLogReq ''host'' ''proj'' (hexOf 5) 50)) (hexOf 0)) 5
       = Inr (Panic ''slice bounds out of range'')
   \<and> readCache evShort (call_init (newLogReq ''host'' ''proj'' (hexOf 5) 50))
       = Some ([MemcacheGet [keyOf 5], MemcacheGet [keyOf 0]], Panic ''slice bounds out of range'')
   \<and> call evShort (newLogReq ''host'' ''proj'' (hexOf 5) 50)
       = Some ([MemcacheGet [keyOf 5], MemcacheGet [keyOf 0],
                CounterAdd [] ''host'' ''proj'' ''PINNED''],
               Panicked ''slice bounds out of range'')"
proof -
  have ns: "info_Namespace evShort = None" by (simp add: evShort_def)
  have "call evShort (newLogReq ''host'' ''proj'' (hexOf 5) 50)
      = Some ([MemcacheGet [keyOf 5], MemcacheGet [keyOf 0]]
                @ [CounterAdd [] ''host'' ''proj'' ''PINNED''],
              Panicked ''slice bounds out of range'')"
    using call_panic [OF ns evShort_read] by (simp add: counterRef_call_init gitHash_hexOf)
  with evShort_steps evShort_read show ?thesis by simp
qed

text \<open>
  The bound of the claim holds. For every \<open>min\<close> in 1..100 the loop ends: the trace holds
  one single-key read per iteration, at least one and at most \<open>100 - min + 1\<close> of them,
  and every followed pointer edge adds at least 1 to the distance, which stays within
  \<open>100 - min\<close>. The loop ends in a hit, in one of the three outcomes that fall back to
  the fetch, or in the panic of the slice expression, and in nothing else.
\<close>

theorem readCache_iteration_bound:
  assumes "1 \<le> min' l" and "min' l \<le> 100"
  shows "(\<exists>gets r. readCache ev l = Some (gets, r)
            \<and> 0 < length gets \<and> length gets - 1 \<le> nat (100 - min' l)
            \<and> (\<forall>x \<in> set gets. isSingleGet x)
            \<and> ((\<exists>cs. r = Val (cacheHit, cs, True))
                \<or> r = Val (cacheMiss, [], False)
                \<or> r = Val (cacheFailure, [], False)
                \<or> r = Val (decodingFailure, [], False)
                \<or> r = Panic ''slice bounds out of range''))
         \<and> (\<forall>e dist e' dist'.
               unat dist \<le> nat (100 - min' l)
               \<and> readCache_step ev l (word_of_int (100 - min' l)) e dist = Inl (e', dist')
               \<longrightarrow> unat dist + 1 \<le> unat dist' \<and> unat dist' \<le> nat (100 - min' l))"
proof (intro conjI allI impI)
  from readCache_returns [OF assms, of ev] obtain gets r where
    g: "readCache ev l = Some (gets, r)" "0 < length gets" "length gets \<le> nat (100 - min' l) + 1"
       "\<forall>x \<in> set gets. \<exists>k. x = MemcacheGet [k]"
    by blast
  from g(4) have "\<forall>x \<in> set gets. isSingleGet x" by auto
  with g(1,2,3) readCache_ends [OF g(1)]
  show "\<exists>gets r. readCache ev l = Some (gets, r)
            \<and> 0 < length gets \<and> length gets - 1 \<le> nat (100 - min' l)
            \<and> (\<forall>x \<in> set gets. isSingleGet x)
            \<and> ((\<exists>cs. r = Val (cacheHit, cs, True))
                \<or> r = Val (cacheMiss, [], False)
                \<or> r = Val (cacheFailure, [], False)
                \<or> r = Val (decodingFailure, [], False)
                \<or> r = Panic ''slice bounds out of range'')"
    by (intro exI [of _ gets] exI [of _ r]) simp
next
  fix e dist e' dist'
  assume a: "unat dist \<le> nat (100 - min' l)
             \<and> readCache_step ev l (word_of_int (100 - min' l)) e dist = Inl (e', dist')"
  let ?maxDist = "word_of_int (100 - min' l) :: byte"
  have u: "unat ?maxDist = nat (100 - min' l)" using assms by (rule maxDist_unat)
  then have b: "unat ?maxDist \<le> 156" using assms by simp
  from a u have "unat dist \<le> unat ?maxDist" by simp
  from readCache_step_progress [OF conjunct2 [OF a] this b] u
  have "unat dist < unat dist' \<and> unat dist' \<le> nat (100 - min' l)" by simp
  then show "unat dist + 1 \<le> unat dist'" and "unat dist' \<le> nat (100 - min' l)" by simp_all
qed

theorem readCache_iteration_bound_witness:
  "1 \<le> min' (call_init (newLogReq ''host'' ''proj'' (hexOf 2) 50))
   \<and> min' (call_init (newLogReq ''host'' ''proj'' (hexOf 2) 50)) \<le> 100
   \<and> (\<exists>gets r. readCache evChain (call_init (newLogReq ''host'' ''proj'' (hexOf 2) 50)) = Some (gets, r)
         \<and> 0 < length gets \<and> length gets - 1 \<le> 50 \<and> (\<forall>x \<in> set gets. isSingleGet x)
         \<and> ((\<exists>cs. r = Val (cacheHit, cs, True))
             \<or> r = Val (cacheMiss, [], False)
             \<or> r = Val (cacheFailure, [], False)
             \<or> r = Val (decodingFailure, [], False)
             \<or> r = Panic ''slice bounds out of range''))
   \<and> readCache_step evChain (call_init (newLogReq ''host'' ''proj'' (hexOf 2) 50)) 50
        (commitishEntry (call_init (newLogReq ''host'' ''proj'' (hexOf 2) 50))) 0
        = Inl (mkCache (call_init (newLogReq ''host'' ''proj'' (hexOf 2) 50)) (hexOf 0), 2)
   \<and> unat (0 :: byte) + 1 \<le> unat (2 :: byte) \<and> unat (2 :: byte) \<le> 50"
proof -
  let ?l = "call_init (newLogReq ''host'' ''proj'' (hexOf 2) 50)"
  have h: "1 \<le> min' ?l" "min' ?l \<le> 100" by simp_all
  have n: "nat (100 - min' ?l) = 50" "(word_of_int (100 - min' ?l) :: byte) = 50" by simp_all
  have g: "memcache_Get evChain (Key (commitishEntry ?l)) = Got (idOf 0 @ [2])"
    by (simp only: evChain_request evChain_gets)
  have "readCache_step evChain ?l 50 (commitishEntry ?l) 0
          = (if (0 :: byte) + 2 \<le> 50 then Inl (mkCache ?l (hex_EncodeToString (idOf 0)), 0 + 2)
             else Inr (Val (cacheMiss, [], False)))"
    by (rule readCache_step_pointer [OF g]) simp_all
  then have st: "readCache_step evChain ?l 50 (commitishEntry ?l) 0 = Inl (mkCache ?l (hexOf 0), 2)"
    by (simp add: hexOf_def)
  from readCache_iteration_bound [OF h, of evChain] n st
  show ?thesis by simp
qed

subsection \<open>C2: the distance budget\<close>

text \<open>
  Claim C2. For every cache state and every \<open>min\<close> in 1..100, the accumulated distance
  \<^verbatim>\<open>dist\<close> of the pointer chase never exceeds \<open>100 - min\<close>: at every pair
  \<^verbatim>\<open>(e, dist)\<close> that the loop visits the bound holds, and when the value at the key of
  \<^verbatim>\<open>e\<close> is a pointer whose distance \<^verbatim>\<open>meta\<close> would take \<^verbatim>\<open>dist + meta\<close> beyond
  \<open>100 - min\<close>, \<^verbatim>\<open>readCache\<close> stops with the outcome miss and \<^verbatim>\<open>call\<close> goes on to
  the Gitiles client: its result is that of the remote path, not a cached one. With
  \<open>min = 100\<close> the distance is always 0 and every pointer edge leads to the fallback.
\<close>

theorem distance_budget:
  assumes "1 \<le> min' l" and "min' l \<le> 100" and "info_Namespace ev = None"
    and "readCache_visits ev (call_init l) e dist"
  shows "unat dist \<le> nat (100 - min' l)
     \<and> (\<forall>ident meta.
           memcache_Get ev (Key e) = Got (ident @ [meta]) \<and> meta \<noteq> 0 \<and> meta < 100
           \<and> nat (100 - min' l) < unat dist + unat meta
           \<longrightarrow> (\<exists>tr rest. readCache ev (call_init l) = Some (tr, Val (cacheMiss, [], False))
                 \<and> fst (call_gitiles ev (call_init l)) = GitilesClient (host l) # rest
                 \<and> call ev l =
                     Some (tr @ GitilesClient (host l) # rest
                              @ [CounterAdd cacheMiss (host l) (project l) (counterRef (call_init l))],
                           snd (call_gitiles ev (call_init l)))))
     \<and> (min' l = 100 \<longrightarrow> dist = 0 \<and>
           (\<forall>ident meta.
              memcache_Get ev (Key e) = Got (ident @ [meta]) \<and> meta \<noteq> 0 \<and> meta < 100
              \<longrightarrow> (\<exists>tr. readCache ev (call_init l) = Some (tr, Val (cacheMiss, [], False)))))"
proof -
  have m: "1 \<le> min' (call_init l)" "min' (call_init l) \<le> 100" using assms(1,2) by simp_all
  have bound: "unat dist \<le> nat (100 - min' l)"
    using readCache_visits_budget [OF m assms(4)] by simp
  have over: "\<exists>tr rest. readCache ev (call_init l) = Some (tr, Val (cacheMiss, [], False))
                 \<and> fst (call_gitiles ev (call_init l)) = GitilesClient (host l) # rest
                 \<and> call ev l =
                     Some (tr @ GitilesClient (host l) # rest
                              @ [CounterAdd cacheMiss (host l) (project l) (counterRef (call_init l))],
                           snd (call_gitiles ev (call_init l)))"
    if p: "memcache_Get ev (Key e) = Got (ident @ [meta])" "meta \<noteq> 0" "meta < 100"
          "nat (100 - min' l) < unat dist + unat meta" for ident meta
  proof -
    from p(4) have "nat (100 - min' (call_init l)) < unat dist + unat meta" by simp
    from visits_over_budget_miss [OF m assms(4) p(1,2,3) this] obtain tr where
      tr: "readCache ev (call_init l) = Some (tr, Val (cacheMiss, [], False))" by blast
    from call_gitiles_head [of ev "call_init l"] obtain rest where
      rest: "fst (call_gitiles ev (call_init l)) = GitilesClient (host l) # rest" by auto
    from call_fallback [OF assms(3) tr] rest
    have "call ev l = Some (tr @ GitilesClient (host l) # rest
                              @ [CounterAdd cacheMiss (host l) (project l) (counterRef (call_init l))],
                           snd (call_gitiles ev (call_init l)))" by simp
    with tr rest show ?thesis by blast
  qed
  have hundred: "dist = 0 \<and>
           (\<forall>ident meta.
              memcache_Get ev (Key e) = Got (ident @ [meta]) \<and> meta \<noteq> 0 \<and> meta < 100
              \<longrightarrow> (\<exists>tr. readCache ev (call_init l) = Some (tr, Val (cacheMiss, [], False))))"
    if h: "min' l = 100"
  proof (intro conjI allI impI)
    from bound h have "unat dist = 0" by simp
    then show z: "dist = 0" by (simp add: unat_eq_0)
    fix ident meta
    assume p: "memcache_Get ev (Key e) = Got (ident @ [meta]) \<and> meta \<noteq> 0 \<and> meta < 100"
    then have "0 < unat meta" by (simp add: unat_gt_0)
    with h z have "nat (100 - min' l) < unat dist + unat meta" by simp
    with over p show "\<exists>tr. readCache ev (call_init l) = Some (tr, Val (cacheMiss, [], False))"
      by blast
  qed
  from bound over hundred show ?thesis by blast
qed

theorem distance_budget_witness:
  "1 \<le> min' (newLogReq ''host'' ''proj'' (hexOf 2) 100)
   \<and> min' (newLogReq ''host'' ''proj'' (hexOf 2) 100) \<le> 100
   \<and> info_Namespace evChain = None
   \<and> readCache_visits evChain (call_init (newLogReq ''host'' ''proj'' (hexOf 2) 100))
        (commitishEntry (call_init (newLogReq ''host'' ''proj'' (hexOf 2) 100))) 0
   \<and> memcache_Get evChain (Key (commitishEntry (call_init (newLogReq ''host'' ''proj'' (hexOf 2) 100))))
        = Got (idOf 0 @ [2])
   \<and> (2 :: byte) \<noteq> 0 \<and> (2 :: byte) < 100
   \<and> nat (100 - min' (newLogReq ''host'' ''proj'' (hexOf 2) 100)) < unat (0 :: byte) + unat (2 :: byte)
   \<and> unat (0 :: byte) \<le> nat (100 - min' (newLogReq ''host'' ''proj'' (hexOf 2) 100))
   \<and> (\<exists>tr rest. readCache evChain (call_init (newLogReq ''host'' ''proj'' (hexOf 2) 100))
                    = Some (tr, Val (cacheMiss, [], False))
         \<and> fst (call_gitiles evChain (call_init (newLogReq ''host'' ''proj'' (hexOf 2) 100)))
             = GitilesClient ''host'' # rest
         \<and> call evChain (newLogReq ''host'' ''proj'' (hexOf 2) 100) =
             Some (tr @ GitilesClient ''host'' # rest
                      @ [CounterAdd cacheMiss ''host'' ''proj''
                           (counterRef (call_init (newLogReq ''host'' ''proj'' (hexOf 2) 100)))],
                   snd (call_gitiles evChain (call_init (newLogReq ''host'' ''proj'' (hexOf 2) 100)))))"
proof -
  let ?rq = "newLogReq ''host'' ''proj'' (hexOf 2) 100"
  let ?l = "call_init ?rq"
  have h: "1 \<le> min' ?rq" "min' ?rq \<le> 100" by simp_all
  have ns: "info_Namespace evChain = None" by (simp add: evChain_def envOf_def)
  have v: "readCache_visits evChain ?l (commitishEntry ?l) 0" by (rule readCache_visits.start)
  have g: "memcache_Get evChain (Key (commitishEntry ?l)) = Got (idOf 0 @ [2])"
    by (simp only: evChain_request evChain_gets)
  have p: "(2 :: byte) \<noteq> 0" "(2 :: byte) < 100"
    "nat (100 - min' ?rq) < unat (0 :: byte) + unat (2 :: byte)" by simp_all
  from distance_budget [OF h ns v] g p
  show ?thesis using h ns v by simp
qed

subsection \<open>C1: a chained hit returns the suffix of the cached list\<close>

text \<open>
  Claim C1. In every cache state in which the pointer chain from the requested commitish
  resolves, with accumulated distance \<open>d\<close>, to a direct entry of \<open>N\<close> commits,
  \<^verbatim>\<open>readCache\<close> reports a hit and \<^verbatim>\<open>Log\<close> returns the cached commits from index \<open>d\<close>
  on, \<open>N - d\<close> of them. The code does not do so in \<open>evShort\<close>: the chain from commit 5
  resolves with distance 5, within the budget of 50, to the direct entry of commit 0,
  which deserializes to one commit. \<^verbatim>\<open>Log\<close> reads the two keys and panics in the
  slice expression \<^verbatim>\<open>decoded.Log[dist:]\<close> (line 192), which no check of \<^verbatim>\<open>dist\<close>
  against the length of the list precedes; it returns no list, and the counter gets the
  empty result. Every other value that the read path cannot use (an empty value, a last
  byte of 100 or more, a direct value that does not deserialize) ends it with a failure
  outcome and the fetch.
\<close>

theorem chained_hit_slice_panic:
  "pointer_chain evShort ''host'' ''proj'' (cacheKey ''host'' ''proj'' (hexOf 5)) 5 (keyOf 0)
   \<and> memcache_Get evShort (keyOf 0) = Got (wireBytes singleLog @ [0])
   \<and> proto_Unmarshal evShort (wireBytes singleLog) = Inr singleLog
   \<and> length (Log singleLog) = 1
   \<and> (5 :: nat) \<le> nat (100 - 50)
   \<and> Log' evShort ''host'' ''proj'' (hexOf 5) 50
       = Some ([MemcacheGet [keyOf 5], MemcacheGet [keyOf 0],
                CounterAdd [] ''host'' ''proj'' ''PINNED''],
               Panicked ''slice bounds out of range'')"
proof -
  let ?rq = "newLogReq ''host'' ''proj'' (hexOf 5) 50"
  have ns: "info_Namespace evShort = None" by (simp add: evShort_def)
  have un: "proto_Unmarshal evShort (wireBytes singleLog) = Inr singleLog"
    by (simp only: evShort_def example_unmarshal wire_roundtrip_examples)
  have len: "length (Log singleLog) = 1" by code_simp
  have "pointer_chain evShort ''host'' ''proj'' (keyOf 5) (unat (5 :: byte) + 0) (keyOf 0)"
  proof (rule pointer_chain.hop)
    show "memcache_Get evShort (keyOf 5) = Got (idOf 0 @ [5])" by (rule evShort_gets)
    show "(5 :: byte) \<noteq> 0" "(5 :: byte) < 100" by simp_all
    show "pointer_chain evShort ''host'' ''proj''
            (cacheKey ''host'' ''proj'' (hex_EncodeToString (idOf 0))) 0 (keyOf 0)"
      unfolding keyOf_def hexOf_def by (rule pointer_chain.here)
  qed
  then have ch: "pointer_chain evShort ''host'' ''proj'' (cacheKey ''host'' ''proj'' (hexOf 5)) 5 (keyOf 0)"
    by (simp add: keyOf_def)
  have "call evShort ?rq
      = Some ([MemcacheGet [keyOf 5], MemcacheGet [keyOf 0]]
                @ [CounterAdd [] ''host'' ''proj'' ''PINNED''],
              Panicked ''slice bounds out of range'')"
    using call_panic [OF ns evShort_read] by (simp add: counterRef_call_init gitHash_hexOf)
  then have "Log' evShort ''host'' ''proj'' (hexOf 5) 50
       = Some ([MemcacheGet [keyOf 5], MemcacheGet [keyOf 0],
                CounterAdd [] ''host'' ''proj'' ''PINNED''],
               Panicked ''slice bounds out of range'')"
    by (simp add: Log'_call)
  moreover have "(5 :: nat) \<le> nat (100 - 50)" by simp
  ultimately show ?thesis using ch un len evShort_gets(2) by (intro conjI)
qed

text \<open>
  Where the distance is within the cached list, the code does what the claim says. When
  the pointer chain that starts at the key of the requested commitish leads, with
  accumulated distance \<open>d\<close> within the budget \<open>100 - min\<close>, to a direct entry that
  deserializes to \<open>N\<close> commits, and \<open>d\<close> is at most \<open>N\<close>, then \<^verbatim>\<open>readCache\<close> reports
  a hit and \<^verbatim>\<open>Log\<close> returns exactly the cached commits from index \<open>d\<close> on,
  \<open>N - d\<close> of them, after reading single keys only and adding the hit to the counter.
  (\<open>min \<le> 0\<close> stands for 50.)
\<close>

theorem chained_hit_suffix:
  assumes "m \<le> 100" and "info_Namespace ev = None"
    and "pointer_chain ev h p (cacheKey h p c) d k"
    and "memcache_Get ev k = Got (data @ [0])"
    and "proto_Unmarshal ev data = Inr decoded"
    and "d \<le> nat (100 - (if m \<le> 0 then 50 else m))"
    and "d \<le> length (Log decoded)"
  shows "\<exists>gets.
           readCache ev (call_init (newLogReq h p c (if m \<le> 0 then 50 else m)))
             = Some (gets, Val (cacheHit, drop d (Log decoded), True))
         \<and> (\<forall>x \<in> set gets. isSingleGet x)
         \<and> Log' ev h p c m
             = Some (gets @ [CounterAdd cacheHit h p (if gitHash_MatchString c then ''PINNED'' else c)],
                     Returned (drop d (Log decoded)))
         \<and> length (drop d (Log decoded)) = length (Log decoded) - d"
proof -
  let ?m = "if m \<le> 0 then 50 else m"
  let ?rq = "newLogReq h p c ?m"
  let ?l = "call_init ?rq"
  let ?maxDist = "word_of_int (100 - min' ?l) :: byte"
  have mm: "1 \<le> ?m" "?m \<le> 100" using assms(1) by simp_all
  then have u: "unat ?maxDist = nat (100 - ?m)"
    using maxDist_unat [of ?m] by simp
  then have b: "unat ?maxDist \<le> 156" using mm by simp
  have hp: "host ?l = h" "project ?l = p" by simp_all
  have k0: "Key (commitishEntry ?l) = cacheKey h p c" by simp
  have d1: "unat (0 :: byte) + d \<le> unat ?maxDist" using assms(6) u by simp
  have d2: "unat (0 :: byte) + d \<le> length (Log decoded)" using assms(7) by simp
  from chain_hit [OF assms(5) hp b assms(3,4) k0 d1 d2, of "[]"]
  obtain gets where g:
    "readCache ev ?l = Some (gets, Val (cacheHit, drop d (Log decoded), True))"
    "\<forall>x \<in> set gets. isSingleGet x"
    by (auto simp: readCache_def)
  from call_hit [OF assms(2) g(1)]
  have "call ev ?rq = Some (gets @ [CounterAdd cacheHit h p (if gitHash_MatchString c then ''PINNED'' else c)],
                            Returned (drop d (Log decoded)))"
    by (simp add: counterRef_call_init)
  then have "Log' ev h p c m
             = Some (gets @ [CounterAdd cacheHit h p (if gitHash_MatchString c then ''PINNED'' else c)],
                     Returned (drop d (Log decoded)))"
    using Log'_call [OF assms(1), of ev h p c] by simp
  with g show ?thesis by (intro exI [of _ gets]) simp
qed

theorem chained_hit_suffix_witness:
  "(50 :: int) \<le> 100 \<and> info_Namespace evChain = None
   \<and> pointer_chain evChain ''host'' ''proj'' (cacheKey ''host'' ''proj'' (hexOf 2)) 2 (keyOf 0)
   \<and> memcache_Get evChain (keyOf 0) = Got (wireBytes (linearLog 4) @ [0])
   \<and> proto_Unmarshal evChain (wireBytes (linearLog 4)) = Inr (linearLog 4)
   \<and> (2 :: nat) \<le> nat (100 - 50) \<and> 2 \<le> length (Log (linearLog 4))
   \<and> (\<exists>gets. readCache evChain (call_init (newLogReq ''host'' ''proj'' (hexOf 2) 50))
                 = Some (gets, Val (cacheHit, drop 2 (Log (linearLog 4)), True))
         \<and> Log' evChain ''host'' ''proj'' (hexOf 2) 50
             = Some (gets @ [CounterAdd cacheHit ''host'' ''proj'' ''PINNED''],
                     Returned [linearCommit 2, linearCommit 3])
         \<and> length (drop 2 (Log (linearLog 4))) = 4 - 2)"
proof -
  have a: "(50 :: int) \<le> 100" by simp
  have ns: "info_Namespace evChain = None" by (simp add: evChain_def)
  have g: "memcache_Get evChain (keyOf 0) = Got (wireBytes (linearLog 4) @ [0])"
    by (rule evChain_gets)
  have un: "proto_Unmarshal evChain (wireBytes (linearLog 4)) = Inr (linearLog 4)"
    by (simp add: evChain_def wire_roundtrip_examples)
  have len: "length (Log (linearLog 4)) = 4" by code_simp
  have dr: "drop 2 (Log (linearLog 4)) = [linearCommit 2, linearCommit 3]" by code_simp
  have d: "(2 :: nat) \<le> nat (100 - (if (50 :: int) \<le> 0 then 50 else 50))"
    "2 \<le> length (Log (linearLog 4))" by (simp_all add: len)
  from chained_hit_suffix [OF a ns evChain_chain g un d]
  obtain gets where
    "readCache evChain (call_init (newLogReq ''host'' ''proj'' (hexOf 2) 50))
       = Some (gets, Val (cacheHit, drop 2 (Log (linearLog 4)), True))"
    "Log' evChain ''host'' ''proj'' (hexOf 2) 50
       = Some (gets @ [CounterAdd cacheHit ''host'' ''proj'' ''PINNED''],
               Returned (drop 2 (Log (linearLog 4))))"
    "length (drop 2 (Log (linearLog 4))) = length (Log (linearLog 4)) - 2"
    by (auto simp: gitHash_hexOf)
  then have "\<exists>gets. readCache evChain (call_init (newLogReq ''host'' ''proj'' (hexOf 2) 50))
                 = Some (gets, Val (cacheHit, drop 2 (Log (linearLog 4)), True))
         \<and> Log' evChain ''host'' ''proj'' (hexOf 2) 50
             = Some (gets @ [CounterAdd cacheHit ''host'' ''proj'' ''PINNED''],
                     Returned [linearCommit 2, linearCommit 3])
         \<and> length (drop 2 (Log (linearLog 4))) = 4 - 2"
    by (simp only: dr len) blast
  with a ns evChain_chain g un d(2) show ?thesis by simp
qed

subsection \<open>C5: a direct entry reads back as the list that was written\<close>

text \<open>
  Claim C5. For every response whose serialization succeeds (and is inverted by the
  deserializer, which is the contract of the protobuf library), the write path stores
  the serialized bytes followed by the byte 0 under the key of the request, as the first
  item of its batch; and the read path, on finding that value under that key, recognizes
  a direct entry (last byte 0) and returns a hit with the identical commit list.
\<close>

theorem direct_roundtrip:
  assumes "proto_Marshal ev res = Inr m" and "proto_Unmarshal ev m = Inr res"
  shows "(\<exists>pre rest. writeCache ev l res
            = pre @ [MemcacheSet ((commitishEntry l)\<lparr>Value := m @ [0]\<rparr> # rest)])
     \<and> last (m @ [0]) = 0
     \<and> readCache (ev\<lparr>memcache_Get := (memcache_Get ev)(Key (commitishEntry l) := Got (m @ [0]))\<rparr>) l
         = Some ([MemcacheGet [Key (commitishEntry l)]], Val (cacheHit, Log res, True))"
proof (intro conjI)
  show "\<exists>pre rest. writeCache ev l res
            = pre @ [MemcacheSet ((commitishEntry l)\<lparr>Value := m @ [0]\<rparr> # rest)]"
    using assms(1) by (rule writeCache_last)
  show "last (m @ [0]) = 0" by simp
  let ?ev = "ev\<lparr>memcache_Get := (memcache_Get ev)(Key (commitishEntry l) := Got (m @ [0]))\<rparr>"
  have g: "memcache_Get ?ev (Key (commitishEntry l)) = Got (m @ [0])" by simp
  have u: "proto_Unmarshal ?ev m = Inr res" using assms(2) by simp
  have "readCache_step ?ev l (word_of_int (100 - min' l)) (commitishEntry l) 0
          = Inr (Val (cacheHit, Log res, True))"
    using readCache_step_direct [OF g u, of l "word_of_int (100 - min' l)" 0] by simp
  from readCache_loop_Inr [OF this, of "[]"]
  show "readCache ?ev l = Some ([MemcacheGet [Key (commitishEntry l)]], Val (cacheHit, Log res, True))"
    by (simp add: readCache_def)
qed

theorem direct_roundtrip_witness:
  "proto_Marshal evEmpty (linearLog 4) = Inr (wireBytes (linearLog 4))
   \<and> proto_Unmarshal evEmpty (wireBytes (linearLog 4)) = Inr (linearLog 4)
   \<and> (\<exists>pre rest. writeCache evEmpty (call_init (newLogReq ''host'' ''proj'' ''refs/heads/main'' 50)) (linearLog 4)
          = pre @ [MemcacheSet ((commitishEntry (call_init (newLogReq ''host'' ''proj'' ''refs/heads/main'' 50)))
                                  \<lparr>Value := wireBytes (linearLog 4) @ [0]\<rparr> # rest)])
   \<and> readCache (evEmpty\<lparr>memcache_Get := (memcache_Get evEmpty)
                   (cacheKey ''host'' ''proj'' ''refs/heads/main'' := Got (wireBytes (linearLog 4) @ [0]))\<rparr>)
         (call_init (newLogReq ''host'' ''proj'' ''refs/heads/main'' 50))
       = Some ([MemcacheGet [cacheKey ''host'' ''proj'' ''refs/heads/main'']],
               Val (cacheHit, Log (linearLog 4), True))"
proof -
  have m: "proto_Marshal evEmpty (linearLog 4) = Inr (wireBytes (linearLog 4))"
    by (simp add: evEmpty_def wire_Marshal_bytes)
  have u: "proto_Unmarshal evEmpty (wireBytes (linearLog 4)) = Inr (linearLog 4)"
    by (simp only: evEmpty_def example_unmarshal wire_roundtrip_examples)
  from direct_roundtrip [OF m u, of "call_init (newLogReq ''host'' ''proj'' ''refs/heads/main'' 50)"] m u
  show ?thesis by simp
qed

subsection \<open>C6: cache failures fall through to the remote fetch\<close>

text \<open>
  Claim C6. A failure of the namespace setup is returned before any cache access (the
  trace is empty). With the namespace set, a failure of the cache layer at any key that
  the read path visits (a miss, an error of the store, an empty value, a last byte in
  100..255, a direct value that does not deserialize) ends the read path with the
  matching outcome and no hit; \<^verbatim>\<open>Log\<close> then goes on to the Gitiles client and returns
  what the remote path returns. Whenever \<^verbatim>\<open>Log\<close> returns an error, the namespace setup
  failed, or the client factory or \<^verbatim>\<open>Gitiles.Log\<close> failed.
\<close>

theorem cache_failures_fall_through:
  assumes "m \<le> 100"
  shows "(\<forall>err. info_Namespace ev = Some err \<longrightarrow>
            Log' ev h p c m = Some ([], Failed (Annotate err ''could not set namespace'')))
     \<and> (\<forall>e dist.
           info_Namespace ev = None
           \<and> readCache_visits ev (call_init (newLogReq h p c (if m \<le> 0 then 50 else m))) e dist
           \<and> cacheLayerFailure ev (Key e)
           \<longrightarrow> (\<exists>tr rest.
                  readCache ev (call_init (newLogReq h p c (if m \<le> 0 then 50 else m)))
                    = Some (tr, Val (case memcache_Get ev (Key e) of
                                       ErrCacheMiss \<Rightarrow> cacheMiss
                                     | GetError msg \<Rightarrow> cacheFailure
                                     | Got v \<Rightarrow> decodingFailure, [], False))
                \<and> fst (call_gitiles ev (call_init (newLogReq h p c (if m \<le> 0 then 50 else m))))
                    = GitilesClient h # rest
                \<and> Log' ev h p c m
                    = Some (tr @ GitilesClient h # rest
                               @ [CounterAdd (case memcache_Get ev (Key e) of
                                                ErrCacheMiss \<Rightarrow> cacheMiss
                                              | GetError msg \<Rightarrow> cacheFailure
                                              | Got v \<Rightarrow> decodingFailure)
                                    h p (if gitHash_MatchString c then ''PINNED'' else c)],
                            snd (call_gitiles ev (call_init (newLogReq h p c (if m \<le> 0 then 50 else m)))))))
     \<and> (\<forall>tr e. Log' ev h p c m = Some (tr, Failed e) \<longrightarrow>
           (\<exists>err. info_Namespace ev = Some err \<and> tr = []
                  \<and> e = Annotate err ''could not set namespace'')
           \<or> (info_Namespace ev = None
               \<and> (Client ev h = Inl e
                   \<or> (\<exists>g err. Client ev h = Inr g
                         \<and> g \<lparr>Project = p, Treeish = c, PageSize = 100\<rparr> = Inl err
                         \<and> e = Annotate err ''gitiles.Log''))))"
proof (intro conjI allI impI)
  let ?rq = "newLogReq h p c (if m \<le> 0 then 50 else m)"
  note L = Log'_call [OF assms, of ev h p c]
  show "Log' ev h p c m = Some ([], Failed (Annotate err ''could not set namespace''))"
    if "info_Namespace ev = Some err" for err
    using call_namespace [OF that, of ?rq] L by simp
  show "\<exists>tr rest.
          readCache ev (call_init ?rq)
            = Some (tr, Val (case memcache_Get ev (Key e) of
                               ErrCacheMiss \<Rightarrow> cacheMiss
                             | GetError msg \<Rightarrow> cacheFailure
                             | Got v \<Rightarrow> decodingFailure, [], False))
        \<and> fst (call_gitiles ev (call_init ?rq)) = GitilesClient h # rest
        \<and> Log' ev h p c m
            = Some (tr @ GitilesClient h # rest
                       @ [CounterAdd (case memcache_Get ev (Key e) of
                                        ErrCacheMiss \<Rightarrow> cacheMiss
                                      | GetError msg \<Rightarrow> cacheFailure
                                      | Got v \<Rightarrow> decodingFailure)
                            h p (if gitHash_MatchString c then ''PINNED'' else c)],
                    snd (call_gitiles ev (call_init ?rq)))"
    if a: "info_Namespace ev = None \<and> readCache_visits ev (call_init ?rq) e dist
           \<and> cacheLayerFailure ev (Key e)" for e dist
  proof -
    let ?cr = "case memcache_Get ev (Key e) of
                 ErrCacheMiss \<Rightarrow> cacheMiss | GetError msg \<Rightarrow> cacheFailure | Got v \<Rightarrow> decodingFailure"
    from a visits_failure [of ev "call_init ?rq" e dist] obtain tr where
      tr: "readCache ev (call_init ?rq) = Some (tr, Val (?cr, [], False))" by blast
    from call_gitiles_head [of ev "call_init ?rq"] obtain rest where
      rest: "fst (call_gitiles ev (call_init ?rq)) = GitilesClient h # rest" by auto
    from a have ns: "info_Namespace ev = None" by simp
    from call_fallback [OF ns tr] rest L
    have "Log' ev h p c m
            = Some (tr @ GitilesClient h # rest
                       @ [CounterAdd ?cr h p (if gitHash_MatchString c then ''PINNED'' else c)],
                    snd (call_gitiles ev (call_init ?rq)))"
      by (simp add: counterRef_call_init)
    with tr rest show ?thesis by blast
  qed
  show "(\<exists>err. info_Namespace ev = Some err \<and> tr = []
                  \<and> e = Annotate err ''could not set namespace'')
           \<or> (info_Namespace ev = None
               \<and> (Client ev h = Inl e
                   \<or> (\<exists>g err. Client ev h = Inr g
                         \<and> g \<lparr>Project = p, Treeish = c, PageSize = 100\<rparr> = Inl err
                         \<and> e = Annotate err ''gitiles.Log'')))"
    if "Log' ev h p c m = Some (tr, Failed e)" for tr e
  proof -
    from that L have "call ev ?rq = Some (tr, Failed e)" by simp
    from call_Failed [OF this] show ?thesis by simp
  qed
qed

theorem cache_failures_fall_through_witness:
  "(50 :: int) \<le> 100
   \<and> info_Namespace evNoNamespace = Some (Err ''namespace'')
   \<and> Log' evNoNamespace ''host'' ''proj'' ''refs/heads/main'' 50
       = Some ([], Failed (Annotate (Err ''namespace'') ''could not set namespace''))
   \<and> info_Namespace evBroken = None
   \<and> readCache_visits evBroken (call_init (newLogReq ''host'' ''proj'' ''refs/heads/main'' 50))
        (commitishEntry (call_init (newLogReq ''host'' ''proj'' ''refs/heads/main'' 50))) 0
   \<and> cacheLayerFailure evBroken (cacheKey ''host'' ''proj'' ''refs/heads/main'')
   \<and> (\<exists>tr rest.
         readCache evBroken (call_init (newLogReq ''host'' ''proj'' ''refs/heads/main'' 50))
           = Some (tr, Val (cacheFailure, [], False))
       \<and> Log' evBroken ''host'' ''proj'' ''refs/heads/main'' 50
           = Some (tr @ GitilesClient ''host'' # rest
                      @ [CounterAdd cacheFailure ''host'' ''proj'' ''refs/heads/main''],
                   Returned (Log (linearLog 4))))
   \<and> (\<exists>tr. Log' evRemoteDown ''host'' ''proj'' ''refs/heads/main'' 50
                = Some (tr, Failed (Err ''no client factory'')))
   \<and> info_Namespace evRemoteDown = None
   \<and> (Client evRemoteDown ''host'' = Inl (Err ''no client factory'')
       \<or> (\<exists>g err. Client evRemoteDown ''host'' = Inr g
             \<and> g \<lparr>Project = ''proj'', Treeish = ''refs/heads/main'', PageSize = 100\<rparr> = Inl err
             \<and> Err ''no client factory'' = Annotate err ''gitiles.Log''))"
proof -
  let ?rq = "newLogReq ''host'' ''proj'' ''refs/heads/main'' 50"
  let ?l = "call_init ?rq"
  have a: "(50 :: int) \<le> 100" by simp
  have e: "(if (50 :: int) \<le> 0 then 50 else 50) = 50" by simp
  note T = cache_failures_fall_through [OF a, of _ "''host''" "''proj''" "''refs/heads/main''", unfolded e]
  \<comment> \<open>the namespace failure\<close>
  have n1: "info_Namespace evNoNamespace = Some (Err ''namespace'')"
    by (simp add: evNoNamespace_def)
  from T [of evNoNamespace, THEN conjunct1, rule_format, OF n1]
  have r1: "Log' evNoNamespace ''host'' ''proj'' ''refs/heads/main'' 50
       = Some ([], Failed (Annotate (Err ''namespace'') ''could not set namespace''))" .
  \<comment> \<open>an error of the store\<close>
  have n2: "info_Namespace evBroken = None" by (simp add: evBroken_def)
  have v2: "readCache_visits evBroken ?l (commitishEntry ?l) 0" by (rule readCache_visits.start)
  have f2: "cacheLayerFailure evBroken (cacheKey ''host'' ''proj'' ''refs/heads/main'')"
    by (simp add: cacheLayerFailure_def evBroken_get)
  then have f2': "cacheLayerFailure evBroken (Key (commitishEntry ?l))"
    by (simp only: main_request_key)
  note T [of evBroken, THEN conjunct2, THEN conjunct1, rule_format,
          of "commitishEntry ?l" 0, OF conjI [OF n2 conjI [OF v2 f2']]]
  then have r2: "\<exists>tr rest.
         readCache evBroken ?l = Some (tr, Val (cacheFailure, [], False))
       \<and> Log' evBroken ''host'' ''proj'' ''refs/heads/main'' 50
           = Some (tr @ GitilesClient ''host'' # rest
                      @ [CounterAdd cacheFailure ''host'' ''proj'' ''refs/heads/main''],
                   Returned (Log (linearLog 4)))"
    by (simp only: main_request_key evBroken_get getResult.case main_not_hash if_False
          evBroken_gitiles) blast
  \<comment> \<open>a miss, then a failure of the client factory\<close>
  have n3: "info_Namespace evRemoteDown = None" by (simp add: evRemoteDown_def)
  have v3: "readCache_visits evRemoteDown ?l (commitishEntry ?l) 0" by (rule readCache_visits.start)
  have f3: "cacheLayerFailure evRemoteDown (Key (commitishEntry ?l))"
    by (simp add: cacheLayerFailure_def evRemoteDown_get)
  from T [of evRemoteDown, THEN conjunct2, THEN conjunct1, rule_format,
          of "commitishEntry ?l" 0, OF conjI [OF n3 conjI [OF v3 f3]]]
  have "\<exists>tr. Log' evRemoteDown ''host'' ''proj'' ''refs/heads/main'' 50
               = Some (tr, snd (call_gitiles evRemoteDown ?l))"
    by blast
  then obtain tr where r3: "Log' evRemoteDown ''host'' ''proj'' ''refs/heads/main'' 50
               = Some (tr, Failed (Err ''no client factory''))"
    by (auto simp: evRemoteDown_gitiles)
  from T [of evRemoteDown, THEN conjunct2, THEN conjunct2, rule_format, OF r3] n3
  have r4: "Client evRemoteDown ''host'' = Inl (Err ''no client factory'')
       \<or> (\<exists>g err. Client evRemoteDown ''host'' = Inr g
             \<and> g \<lparr>Project = ''proj'', Treeish = ''refs/heads/main'', PageSize = 100\<rparr> = Inl err
             \<and> Err ''no client factory'' = Annotate err ''gitiles.Log'')"
    by simp
  from a n1 r1 n2 v2 f2 r2 r3 n3 r4 show ?thesis by blast
qed

subsection \<open>C8: the counter\<close>

text \<open>
  Claim C8, as amended. Every call of \<^verbatim>\<open>Log\<close> whose namespace setup succeeds and whose
  read path returns (with the named results \<^verbatim>\<open>cacheResult\<close>, \<^verbatim>\<open>commits\<close>, \<^verbatim>\<open>ok\<close>)
  adds to the counter exactly once, as its last action. The increment carries the result
  of the read path, which is one of the strings \<^verbatim>\<open>hit\<close>, \<^verbatim>\<open>miss\<close>,
  \<^verbatim>\<open>failure-cache\<close> and \<^verbatim>\<open>failure-decoding\<close> (\<^verbatim>\<open>hit\<close> exactly when the read path
  succeeded), the host, the project, and as \<^verbatim>\<open>ref\<close> the constant \<^verbatim>\<open>PINNED\<close> when the
  commitish is forty hexadecimal digits and the commitish itself otherwise.
\<close>

theorem counter_once:
  assumes "m \<le> 100" and "info_Namespace ev = None"
    and "readCache ev (call_init (newLogReq h p c (if m \<le> 0 then 50 else m))) = Some (tr0, Val (cr, cs, ok))"
  shows "(\<exists>tr r. Log' ev h p c m = Some (tr, r)
           \<and> filter isCounterAdd tr = [CounterAdd cr h p (if gitHash_MatchString c then ''PINNED'' else c)]
           \<and> last tr = CounterAdd cr h p (if gitHash_MatchString c then ''PINNED'' else c))
       \<and> cr \<in> {''hit'', ''miss'', ''failure-cache'', ''failure-decoding''}
       \<and> (ok \<longleftrightarrow> cr = ''hit'')"
  using Log'_counter [OF assms] readCache_label [OF assms(3)] by blast

theorem counter_once_witness:
  "(50 :: int) \<le> 100 \<and> info_Namespace evBroken = None
   \<and> readCache evBroken (call_init (newLogReq ''host'' ''proj'' ''refs/heads/main'' 50))
       = Some ([MemcacheGet [cacheKey ''host'' ''proj'' ''refs/heads/main'']], Val (''failure-cache'', [], False))
   \<and> (\<exists>tr r. Log' evBroken ''host'' ''proj'' ''refs/heads/main'' 50 = Some (tr, r)
         \<and> filter isCounterAdd tr = [CounterAdd ''failure-cache'' ''host'' ''proj'' ''refs/heads/main'']
         \<and> last tr = CounterAdd ''failure-cache'' ''host'' ''proj'' ''refs/heads/main'')
   \<and> ''failure-cache'' \<in> {''hit'', ''miss'', ''failure-cache'', ''failure-decoding''}"
proof -
  have a: "(50 :: int) \<le> 100" by simp
  have n: "info_Namespace evBroken = None" by (simp add: evBroken_def)
  have r: "readCache evBroken
             (call_init (newLogReq ''host'' ''proj'' ''refs/heads/main'' (if (50 :: int) \<le> 0 then 50 else 50)))
           = Some ([MemcacheGet [cacheKey ''host'' ''proj'' ''refs/heads/main'']],
                   Val (''failure-cache'', [], False))"
    using evBroken_read by (simp add: cacheFailure_def)
  from counter_once [OF a n r] a n r show ?thesis
    by (simp add: main_not_hash)
qed

text \<open>
  The claim as stated fails in two ways. A call whose namespace setup fails adds nothing
  to the counter: the deferred increment is installed after the check. And the value
  recorded for a failure of the store is the string \<^verbatim>\<open>failure-cache\<close>, which is not in
  the set hit, miss, cache-failure, decoding-failure that the claim names.
\<close>

theorem counter_counterexample:
  "Log' evNoNamespace ''host'' ''proj'' ''refs/heads/main'' 50
     = Some ([], Failed (Annotate (Err ''namespace'') ''could not set namespace''))
   \<and> filter isCounterAdd ([] :: event list) = []
   \<and> map_option (filter isCounterAdd \<circ> fst) (Log' evBroken ''host'' ''proj'' ''refs/heads/main'' 50)
       = Some [CounterAdd ''failure-cache'' ''host'' ''proj'' ''refs/heads/main'']
   \<and> ''failure-cache'' \<notin> {''hit'', ''miss'', ''cache-failure'', ''decoding-failure''}"
proof -
  have n1: "info_Namespace evNoNamespace = Some (Err ''namespace'')"
    by (simp add: evNoNamespace_def)
  have r1: "Log' evNoNamespace ''host'' ''proj'' ''refs/heads/main'' 50
     = Some ([], Failed (Annotate (Err ''namespace'') ''could not set namespace''))"
    using call_namespace [OF n1] by (simp add: Log'_call)
  have a: "(50 :: int) \<le> 100" by simp
  have n: "info_Namespace evBroken = None" by (simp add: evBroken_def)
  have r: "readCache evBroken
             (call_init (newLogReq ''host'' ''proj'' ''refs/heads/main'' (if (50 :: int) \<le> 0 then 50 else 50)))
           = Some ([MemcacheGet [cacheKey ''host'' ''proj'' ''refs/heads/main'']],
                   Val (''failure-cache'', [], False))"
    using evBroken_read by (simp add: cacheFailure_def)
  from Log'_counter [OF a n r]
  have r2: "map_option (filter isCounterAdd \<circ> fst) (Log' evBroken ''host'' ''proj'' ''refs/heads/main'' 50)
       = Some [CounterAdd ''failure-cache'' ''host'' ''proj'' ''refs/heads/main'']"
    by (auto simp: main_not_hash)
  from r1 r2 show ?thesis by simp
qed

subsection \<open>C3: no regression to a larger distance\<close>

text \<open>
  Claim C3, as amended. For every cache state and every fetched list, at each position
  \<open>j\<close> of the single-parent chain the write path writes the pointer entry (the
  identifier of the first commit followed by the byte \<open>j\<close>, under the key of the commit
  at \<open>j\<close>) exactly when the probe of that key missed, or failed, or returned an empty
  value, or returned a value whose last byte is greater than the byte \<open>j\<close>. So it never
  writes it over a value whose last byte is at most the new distance. (The byte is the
  position itself for positions below 256.)
\<close>

theorem no_regression:
  assumes "MemcacheSet batch \<in> set (writeCache ev l res)"
    and "j \<in> set (ancestorPositions (Log res))"
  shows "(\<exists>m. proto_Marshal ev res = Inr m
            \<and> batch = directCaches l m res @ pointerWrites ev l (Log res))
     \<and> (pointerItem l (Log res) j \<in> set (pointerWrites ev l (Log res)) \<longleftrightarrow>
           memcache_Get ev (Key (pointerItem l (Log res) j)) = ErrCacheMiss
         \<or> (\<exists>msg. memcache_Get ev (Key (pointerItem l (Log res) j)) = GetError msg)
         \<or> (\<exists>v. memcache_Get ev (Key (pointerItem l (Log res) j)) = Got v
                 \<and> (v = [] \<or> of_nat j < last v)))
     \<and> (\<forall>v. memcache_Get ev (Key (pointerItem l (Log res) j)) = Got v \<and> v \<noteq> [] \<and> last v \<le> of_nat j
           \<longrightarrow> pointerItem l (Log res) j \<notin> set (pointerWrites ev l (Log res)))
     \<and> (j < 256 \<longrightarrow> unat (of_nat j :: byte) = j)"
proof (intro conjI)
  show "\<exists>m. proto_Marshal ev res = Inr m
            \<and> batch = directCaches l m res @ pointerWrites ev l (Log res)"
    using assms(1) by (rule writeCache_batch)
  show iff: "pointerItem l (Log res) j \<in> set (pointerWrites ev l (Log res)) \<longleftrightarrow>
           memcache_Get ev (Key (pointerItem l (Log res) j)) = ErrCacheMiss
         \<or> (\<exists>msg. memcache_Get ev (Key (pointerItem l (Log res) j)) = GetError msg)
         \<or> (\<exists>v. memcache_Get ev (Key (pointerItem l (Log res) j)) = Got v
                 \<and> (v = [] \<or> of_nat j < last v))"
    using assms(2) by (rule written_iff_probe)
  show "\<forall>v. memcache_Get ev (Key (pointerItem l (Log res) j)) = Got v \<and> v \<noteq> [] \<and> last v \<le> of_nat j
           \<longrightarrow> pointerItem l (Log res) j \<notin> set (pointerWrites ev l (Log res))"
    unfolding iff by (auto simp: not_less)
  show "j < 256 \<longrightarrow> unat (of_nat j :: byte) = j"
    by (simp add: byte_of_position)
qed

theorem no_regression_witness:
  "MemcacheSet (directCaches mainReq (wireBytes (linearLog 4)) (linearLog 4)
                  @ pointerWrites evChain mainReq (Log (linearLog 4)))
     \<in> set (writeCache evChain mainReq (linearLog 4))
   \<and> 2 \<in> set (ancestorPositions (Log (linearLog 4)))
   \<and> memcache_Get evChain (Key (pointerItem mainReq (Log (linearLog 4)) 2)) = Got (idOf 0 @ [2])
   \<and> idOf 0 @ [2] \<noteq> [] \<and> last (idOf 0 @ [2]) \<le> (of_nat 2 :: byte)
   \<and> pointerItem mainReq (Log (linearLog 4)) 2 \<notin> set (pointerWrites evChain mainReq (Log (linearLog 4)))
   \<and> 1 \<in> set (ancestorPositions (Log (linearLog 4)))
   \<and> memcache_Get evChain (Key (pointerItem mainReq (Log (linearLog 4)) 1)) = ErrCacheMiss
   \<and> pointerItem mainReq (Log (linearLog 4)) 1 \<in> set (pointerWrites evChain mainReq (Log (linearLog 4)))"
proof -
  let ?res = "linearLog 4"
  let ?batch = "directCaches mainReq (wireBytes ?res) ?res @ pointerWrites evChain mainReq (Log ?res)"
  have b: "MemcacheSet ?batch \<in> set (writeCache evChain mainReq ?res)"
    unfolding evChain_def by (subst writeCache_example) (simp_all add: linearLog4_positions)
  have p2: "2 \<in> set (ancestorPositions (Log ?res))" and p1: "1 \<in> set (ancestorPositions (Log ?res))"
    by (simp_all add: linearLog4_positions)
  have g2: "memcache_Get evChain (Key (pointerItem mainReq (Log ?res) 2)) = Got (idOf 0 @ [2])"
    by (simp only: linearLog4_keys evChain_gets)
  have g1: "memcache_Get evChain (Key (pointerItem mainReq (Log ?res) 1)) = ErrCacheMiss"
    by (simp only: linearLog4_keys evChain_miss)
  have v: "idOf 0 @ [2] \<noteq> []" "last (idOf 0 @ [2]) \<le> (of_nat 2 :: byte)" by simp_all
  from no_regression [OF b p2, THEN conjunct2, THEN conjunct2, THEN conjunct1, rule_format,
         OF conjI [OF g2 conjI [OF v]]]
  have n2: "pointerItem mainReq (Log ?res) 2 \<notin> set (pointerWrites evChain mainReq (Log ?res))" .
  from no_regression [OF b p1, THEN conjunct2, THEN conjunct1] g1
  have w1: "pointerItem mainReq (Log ?res) 1 \<in> set (pointerWrites evChain mainReq (Log ?res))"
    by blast
  from b p2 g2 v n2 p1 g1 w1 show ?thesis by (intro conjI)
qed

text \<open>
  The claim as stated allows a write only on a missing key, a failed probe or a greater
  last byte. In \<open>evEmptyValue\<close> the key of commit 1 is present, its probe succeeds and its
  value is empty, so that it has no last byte at all; the write path still writes the
  pointer entry for position 1 there.
\<close>

theorem no_regression_counterexample:
  "memcache_Get evEmptyValue (keyOf 1) = Got []
   \<and> Key (pointerItem mainReq (Log twoLog) 1) = keyOf 1
   \<and> Value (pointerItem mainReq (Log twoLog) 1) = idOf 0 @ [1]
   \<and> writeCache evEmptyValue mainReq twoLog
       = [MemcacheGet [keyOf 1],
          MemcacheSet (directCaches mainReq (wireBytes twoLog) twoLog
                         @ [pointerItem mainReq (Log twoLog) 1])]"
proof -
  have "writeCache evEmptyValue mainReq twoLog
          = [MemcacheGet (map (\<lambda>j. Key (pointerItem mainReq (Log twoLog) j)) (ancestorPositions (Log twoLog))),
             MemcacheSet (directCaches mainReq (wireBytes twoLog) twoLog
                            @ pointerWrites evEmptyValue mainReq (Log twoLog))]"
    unfolding evEmptyValue_def by (rule writeCache_example) (simp add: twoLog_facts)
  also have "map (\<lambda>j. Key (pointerItem mainReq (Log twoLog) j)) (ancestorPositions (Log twoLog)) = [keyOf 1]"
    by (simp only: twoLog_positions twoLog_facts list.map)
  finally have "writeCache evEmptyValue mainReq twoLog
       = [MemcacheGet [keyOf 1],
          MemcacheSet (directCaches mainReq (wireBytes twoLog) twoLog
                         @ [pointerItem mainReq (Log twoLog) 1])]"
    by (simp only: evEmptyValue_writes)
  with evEmptyValue_get twoLog_facts(2,3) show ?thesis by (intro conjI)
qed

subsection \<open>C4: pointers only along a single-parent chain\<close>

text \<open>
  Claim C4. For every fetched list \<open>L\<close>, newest first, every pointer entry that the
  write path puts into its batch is the entry of some position \<open>j\<close> with
  \<open>1 \<le> j < length L\<close> (key: the identifier of \<open>L[j]\<close>; value: the identifier of \<open>L[0]\<close>
  and the distance byte \<open>j\<close>) such that every commit \<open>L[0]\<close>, ..., \<open>L[j-1]\<close> has
  exactly one parent. The positions considered are \<open>1, ..., k - 1\<close>, where \<open>L[k-1]\<close> is
  the first commit whose number of parents is not 1 (or \<open>k\<close> is the length of the list):
  no pointer entry is created for a position behind a merge commit.
\<close>

theorem single_parent_chain:
  assumes "MemcacheSet batch \<in> set (writeCache ev l res)"
  shows "\<exists>m k. proto_Marshal ev res = Inr m
           \<and> batch = directCaches l m res @ pointerWrites ev l (Log res)
           \<and> (\<forall>x \<in> set (pointerWrites ev l (Log res)).
                 \<exists>j. x = pointerItem l (Log res) j \<and> 1 \<le> j \<and> j < length (Log res)
                     \<and> (\<forall>i<j. length (Parents (Log res ! i)) = 1))
           \<and> ancestorPositions (Log res) = [1..<k]
           \<and> (1 \<le> k \<and> k < length (Log res) \<longrightarrow> length (Parents (Log res ! (k - 1))) \<noteq> 1)
           \<and> set (pointerWrites ev l (Log res)) \<subseteq> pointerItem l (Log res) ` {1..<k}"
proof -
  from writeCache_batch [OF assms] obtain m where
    m: "proto_Marshal ev res = Inr m" "batch = directCaches l m res @ pointerWrites ev l (Log res)"
    by blast
  from ancestorPositions_stop [of "Log res"] obtain k where
    k: "ancestorPositions (Log res) = [1..<k]"
       "1 \<le> k \<and> k < length (Log res) \<longrightarrow> length (Parents (Log res ! (k - 1))) \<noteq> 1"
    by blast
  have sub: "set (pointerWrites ev l (Log res)) \<subseteq> pointerItem l (Log res) ` {1..<k}"
    by (auto simp: pointerWrites_def k(1))
  have pos: "\<forall>x \<in> set (pointerWrites ev l (Log res)).
                 \<exists>j. x = pointerItem l (Log res) j \<and> 1 \<le> j \<and> j < length (Log res)
                     \<and> (\<forall>i<j. length (Parents (Log res ! i)) = 1)"
    using pointerWrites_positions [of _ ev l "Log res"] by blast
  from m k sub pos show ?thesis by blast
qed

theorem single_parent_chain_witness:
  "MemcacheSet (directCaches mainReq (wireBytes mergeLog) mergeLog @ [pointerItem mainReq (Log mergeLog) 1])
     \<in> set (writeCache evEmpty mainReq mergeLog)
   \<and> pointerWrites evEmpty mainReq (Log mergeLog) = [pointerItem mainReq (Log mergeLog) 1]
   \<and> length (Parents (Log mergeLog ! 0)) = 1
   \<and> length (Parents (Log mergeLog ! 1)) = 2
   \<and> (\<exists>m k. proto_Marshal evEmpty mergeLog = Inr m
         \<and> ancestorPositions (Log mergeLog) = [1..<k]
         \<and> (1 \<le> k \<and> k < length (Log mergeLog) \<longrightarrow> length (Parents (Log mergeLog ! (k - 1))) \<noteq> 1)
         \<and> (\<forall>x \<in> set (pointerWrites evEmpty mainReq (Log mergeLog)).
               \<exists>j. x = pointerItem mainReq (Log mergeLog) j \<and> 1 \<le> j \<and> j < length (Log mergeLog)
                   \<and> (\<forall>i<j. length (Parents (Log mergeLog ! i)) = 1))
         \<and> set (pointerWrites evEmpty mainReq (Log mergeLog)) \<subseteq> pointerItem mainReq (Log mergeLog) ` {1..<k})"
proof -
  let ?batch = "directCaches mainReq (wireBytes mergeLog) mergeLog @ [pointerItem mainReq (Log mergeLog) 1]"
  have "writeCache evEmpty mainReq mergeLog
          = [MemcacheGet (map (\<lambda>j. Key (pointerItem mainReq (Log mergeLog) j)) (ancestorPositions (Log mergeLog))),
             MemcacheSet (directCaches mainReq (wireBytes mergeLog) mergeLog
                            @ pointerWrites evEmpty mainReq (Log mergeLog))]"
    unfolding evEmpty_def by (rule writeCache_example) (simp add: mergeLog_facts)
  then have b: "MemcacheSet ?batch \<in> set (writeCache evEmpty mainReq mergeLog)"
    by (simp only: evEmpty_mergeLog_writes) simp
  from single_parent_chain [OF b]
  have "\<exists>m k. proto_Marshal evEmpty mergeLog = Inr m
         \<and> ancestorPositions (Log mergeLog) = [1..<k]
         \<and> (1 \<le> k \<and> k < length (Log mergeLog) \<longrightarrow> length (Parents (Log mergeLog ! (k - 1))) \<noteq> 1)
         \<and> (\<forall>x \<in> set (pointerWrites evEmpty mainReq (Log mergeLog)).
               \<exists>j. x = pointerItem mainReq (Log mergeLog) j \<and> 1 \<le> j \<and> j < length (Log mergeLog)
                   \<and> (\<forall>i<j. length (Parents (Log mergeLog ! i)) = 1))
         \<and> set (pointerWrites evEmpty mainReq (Log mergeLog)) \<subseteq> pointerItem mainReq (Log mergeLog) ` {1..<k}"
    by blast
  with b evEmpty_mergeLog_writes mergeLog_facts(3,4) show ?thesis by (intro conjI)
qed

subsection \<open>C10: a direct entry is never replaced by a pointer\<close>

text \<open>
  Claim C10. For every cache state, when the probe of a key returns a direct entry (a
  value that is not empty and whose last byte is 0), the batch of the write path has no
  pointer entry for that key: the probe condition reads the 0 as a distance that is at
  most any candidate distance. Whatever the batch holds for that key is itself a direct
  entry, the freshly serialized response followed by 0. (The candidate distances are the
  positions 1, 2, ...: at least 1 as bytes for a list of at most 256 commits.)
\<close>

theorem direct_entry_kept:
  assumes "MemcacheSet batch \<in> set (writeCache ev l res)"
    and "memcache_Get ev k = Got v" and "v \<noteq> []" and "last v = 0"
  shows "\<exists>m. proto_Marshal ev res = Inr m
           \<and> batch = directCaches l m res @ pointerWrites ev l (Log res)
           \<and> (\<forall>x \<in> set (pointerWrites ev l (Log res)). Key x \<noteq> k)
           \<and> (\<forall>x \<in> set batch. Key x = k \<longrightarrow> Value x = m @ [0])
           \<and> (length (Log res) \<le> 256 \<longrightarrow>
                (\<forall>x \<in> set (pointerWrites ev l (Log res)).
                   \<exists>j. Value x = Id (Log res ! 0) @ [of_nat j] \<and> 1 \<le> unat (of_nat j :: byte)))"
proof -
  from writeCache_batch [OF assms(1)] obtain m where
    m: "proto_Marshal ev res = Inr m" "batch = directCaches l m res @ pointerWrites ev l (Log res)"
    by blast
  have nk: "\<forall>x \<in> set (pointerWrites ev l (Log res)). Key x \<noteq> k"
    using pointerWrites_not_direct [OF _ assms(2,3,4)] by blast
  have dv: "\<forall>x \<in> set batch. Key x = k \<longrightarrow> Value x = m @ [0]"
    using nk directCaches_values [of _ l m res] by (auto simp: m(2))
  have ds: "length (Log res) \<le> 256 \<longrightarrow>
                (\<forall>x \<in> set (pointerWrites ev l (Log res)).
                   \<exists>j. Value x = Id (Log res ! 0) @ [of_nat j] \<and> 1 \<le> unat (of_nat j :: byte))"
    using pointerWrites_distance [of _ ev l "Log res"] by blast
  from m nk dv ds show ?thesis by blast
qed

theorem direct_entry_kept_witness:
  "MemcacheSet (directCaches mainReq (wireBytes (linearLog 3)) (linearLog 3)
                  @ [pointerItem mainReq (Log (linearLog 3)) 2])
     \<in> set (writeCache evDirect mainReq (linearLog 3))
   \<and> memcache_Get evDirect (keyOf 1) = Got (wireBytes (linearLog 3) @ [0])
   \<and> wireBytes (linearLog 3) @ [0] \<noteq> []
   \<and> last (wireBytes (linearLog 3) @ [0]) = 0
   \<and> Key (pointerItem mainReq (Log (linearLog 3)) 1) = keyOf 1
   \<and> length (Log (linearLog 3)) \<le> 256
   \<and> (\<exists>m. proto_Marshal evDirect (linearLog 3) = Inr m
         \<and> (\<forall>x \<in> set (pointerWrites evDirect mainReq (Log (linearLog 3))). Key x \<noteq> keyOf 1)
         \<and> (\<forall>x \<in> set (directCaches mainReq (wireBytes (linearLog 3)) (linearLog 3)
                          @ [pointerItem mainReq (Log (linearLog 3)) 2]).
               Key x = keyOf 1 \<longrightarrow> Value x = m @ [0])
         \<and> (\<forall>x \<in> set (pointerWrites evDirect mainReq (Log (linearLog 3))).
               \<exists>j. Value x = Id (Log (linearLog 3) ! 0) @ [of_nat j] \<and> 1 \<le> unat (of_nat j :: byte)))"
proof -
  let ?res = "linearLog 3"
  let ?batch = "directCaches mainReq (wireBytes ?res) ?res @ [pointerItem mainReq (Log ?res) 2]"
  have "writeCache evDirect mainReq ?res
          = [MemcacheGet (map (\<lambda>j. Key (pointerItem mainReq (Log ?res) j)) (ancestorPositions (Log ?res))),
             MemcacheSet (directCaches mainReq (wireBytes ?res) ?res
                            @ pointerWrites evDirect mainReq (Log ?res))]"
    unfolding evDirect_def by (rule writeCache_example) (simp add: linearLog3_positions)
  then have b: "MemcacheSet ?batch \<in> set (writeCache evDirect mainReq ?res)"
    by (simp only: evDirect_writes) simp
  have g: "memcache_Get evDirect (keyOf 1) = Got (wireBytes ?res @ [0])" by (rule evDirect_gets)
  have v: "wireBytes ?res @ [0] \<noteq> []" "last (wireBytes ?res @ [0]) = 0" by simp_all
  have k: "Key (pointerItem mainReq (Log ?res) 1) = keyOf 1" by (rule linearLog_key) simp
  have len: "length (Log ?res) \<le> 256" by (simp add: linearLog3_positions)
  from direct_entry_kept [OF b g v] len
  have "\<exists>m. proto_Marshal evDirect ?res = Inr m
         \<and> (\<forall>x \<in> set (pointerWrites evDirect mainReq (Log ?res)). Key x \<noteq> keyOf 1)
         \<and> (\<forall>x \<in> set ?batch. Key x = keyOf 1 \<longrightarrow> Value x = m @ [0])
         \<and> (\<forall>x \<in> set (pointerWrites evDirect mainReq (Log ?res)).
               \<exists>j. Value x = Id (Log ?res ! 0) @ [of_nat j] \<and> 1 \<le> unat (of_nat j :: byte))"
    by blast
  with b g v k len show ?thesis by (intro conjI)
qed

end
